theory Spec2Isabelle
  imports Complex_Main "HOL-Library.Word" "HOL-Library.AList" "HOL-Library.Multiset"
begin

section \<open>Conventions of the embedding\<close>

text \<open>
  The development embeds \<^verbatim>\<open>statsd/aggregator.go\<close>.

  \<^item> \<^verbatim>\<open>float64\<close> is idealised as \<^typ>\<open>real\<close>: rounding, NaN and the infinities are not
    modelled. Every index, branch and formula of the source is kept. A division by zero
    (a flush interval of zero) gives an infinity or NaN in Go and 0 in HOL: a quotient by
    the flush interval in seconds stands for the value that Go computes only when the
    interval is not zero, and the theorem on the counter window assumes that it is not.
  \<^item> \<^verbatim>\<open>int64\<close> is \<^typ>\<open>64 word\<close> (addition wraps); Go's \<^verbatim>\<open>int\<close> is \<^typ>\<open>int\<close>, used
    for lengths and slice indices only.
  \<^item> \<^verbatim>\<open>time.Time\<close> is a number of nanoseconds counted from the zero \<^verbatim>\<open>time.Time\<close>;
    \<^verbatim>\<open>time.Duration\<close> is a number of nanoseconds.
  \<^item> A Go map is an association list with the operations of \<^verbatim>\<open>HOL-Library.AList\<close>;
    it is read through \<^const>\<open>map_of\<close>. A \<^verbatim>\<open>range\<close> loop visits the entries of the list.
  \<^item> A run-time panic is a value \<open>Inl e\<close> of the result type.
  \<^item> The mutex and the goroutines are not modelled: each operation runs under the lock.
\<close>

type_synonym Time = int
type_synonym Duration = int

datatype error = IndexOutOfRange int nat | NilMapAssignment

definition bindE :: "error + 'a \<Rightarrow> ('a \<Rightarrow> error + 'b) \<Rightarrow> error + 'b" where
  "bindE m f = (case m of Inl e \<Rightarrow> Inl e | Inr x \<Rightarrow> f x)"

text \<open>A slice read \<^verbatim>\<open>xs[i]\<close>: Go panics when the index is out of range.\<close>

definition index :: "'a list \<Rightarrow> int \<Rightarrow> error + 'a" where
  "index xs i = (if 0 \<le> i \<and> i < int (length xs) then Inr (xs ! nat i)
                 else Inl (IndexOutOfRange i (length xs)))"

subsection \<open>Time\<close>

definition maxDuration :: Duration where
  "maxDuration = 2 ^ 63 - 1"

definition minDuration :: Duration where
  "minDuration = - (2 ^ 63)"

text \<open>\<^verbatim>\<open>t.Sub(u)\<close>: the difference, saturating at the bounds of \<^verbatim>\<open>time.Duration\<close>.\<close>

definition Sub :: "Time \<Rightarrow> Time \<Rightarrow> Duration" where
  "Sub t u = (let d = t - u in
     if d > maxDuration then maxDuration else if d < minDuration then minDuration else d)"

text \<open>\<^verbatim>\<open>d.Seconds()\<close>.\<close>

definition Seconds :: "Duration \<Rightarrow> real" where
  "Seconds d = real_of_int d / 1000000000"

subsection \<open>Conversions\<close>

text \<open>
  \<^verbatim>\<open>int(x)\<close> of a \<^verbatim>\<open>float64\<close> truncates toward zero. It is used for a threshold, for
  the number of samples in a threshold and for the middle index, and Go's \<^verbatim>\<open>int\<close> is the
  unbounded \<^typ>\<open>int\<close> here. When the value does not fit 64 bits, which only a threshold
  of extreme magnitude can cause, Go leaves the result to the implementation; the model
  keeps the truncation.
\<close>

definition int_of_float :: "real \<Rightarrow> int" where
  "int_of_float x = (if 0 \<le> x then \<lfloor>x\<rfloor> else \<lceil>x\<rceil>)"

text \<open>
  \<^verbatim>\<open>int64(x)\<close> of a \<^verbatim>\<open>float64\<close>: the truncation when it fits. When it does not fit, Go leaves
  the result to the implementation; on amd64 the conversion gives the smallest \<^verbatim>\<open>int64\<close>,
  and the model follows it. It does not wrap.
\<close>

definition MinInt64 :: "64 word" where
  "MinInt64 = word_of_int (- (2 ^ 63))"

definition int64 :: "real \<Rightarrow> 64 word" where
  "int64 x =
     (if - (2 ^ 63) \<le> int_of_float x \<and> int_of_float x < 2 ^ 63
      then word_of_int (int_of_float x) else MinInt64)"

text \<open>\<^verbatim>\<open>float64(v)\<close> of an \<^verbatim>\<open>int64\<close>.\<close>

definition float64 :: "64 word \<Rightarrow> real" where
  "float64 w = real_of_int (sint w)"

text \<open>\<^verbatim>\<open>fmt.Sprintf("%d", n)\<close>.\<close>

definition digit :: "nat \<Rightarrow> char" where
  "digit d = ''0123456789'' ! d"

fun show_nat :: "nat \<Rightarrow> string" where
  "show_nat n = (if n < 10 then [digit n] else show_nat (n div 10) @ [digit (n mod 10)])"

declare show_nat.simps [simp del]

definition Sprintf_d :: "int \<Rightarrow> string" where
  "Sprintf_d i = (if i < 0 then CHR ''-'' # show_nat (nat (- i)) else show_nat (nat i))"

section \<open>The metric model\<close>

text \<open>
  Modelled from the spec: the package \<^verbatim>\<open>types\<close> (the records \<^verbatim>\<open>Metric\<close>, \<^verbatim>\<open>Counter\<close>,
  \<^verbatim>\<open>Gauge\<close>, \<^verbatim>\<open>Timer\<close>, \<^verbatim>\<open>Set\<close>, \<^verbatim>\<open>MetricMap\<close>, their constructors, the iterators
  \<^verbatim>\<open>EachCounter\<close> etc., the copy functions and \<^verbatim>\<open>Percentiles.Set\<close>) is not among the
  sources. Its fields are the ones \<^verbatim>\<open>aggregator.go\<close> reads and writes; following the
  data model of the specification, \<open>interval\<close> and \<open>timestamp\<close> are two fields of every
  record, a constructor \<^verbatim>\<open>NewX(now, flushInterval, v)\<close> stores its three arguments and
  leaves every other field at its zero value, and the percentile fields are keyed by their
  name with one entry for each key.
\<close>

datatype MetricType = COUNTER | TIMER | GAUGE | SET | OTHER nat

record Metric =
  Name :: string
  Type :: MetricType
  Value :: real
  StringValue :: string
  Tags :: "string list"

record Counter =
  PerSecond :: real
  Value :: "64 word"
  Timestamp :: Time
  Interval :: Duration

record Gauge =
  Value :: real
  Timestamp :: Time
  Interval :: Duration

record Timer =
  Count :: int
  PerSecond :: real
  Mean :: real
  Median :: real
  Max :: real
  Min :: real
  StdDev :: real
  Sum :: real
  SumSquares :: real
  Values :: "real list"
  Percentiles :: "(string \<times> real) list"
  Timestamp :: Time
  Interval :: Duration

record Set =
  Values :: "(string \<times> 64 word) list"
  Timestamp :: Time
  Interval :: Duration

text \<open>
  The composite literals \<^verbatim>\<open>types.Counter{Interval: i}\<close>, \<^verbatim>\<open>types.Timer{Interval: i}\<close> and
  \<^verbatim>\<open>types.Set{Interval: i, Values: vs}\<close> of \<^verbatim>\<open>Reset\<close>: every other field is zero.
\<close>

definition Counter_lit :: "Duration \<Rightarrow> Counter" where
  "Counter_lit i = \<lparr>Counter.PerSecond = 0, Counter.Value = 0, Counter.Timestamp = 0,
     Counter.Interval = i\<rparr>"

definition Timer_lit :: "Duration \<Rightarrow> Timer" where
  "Timer_lit i = \<lparr>Timer.Count = 0, Timer.PerSecond = 0, Timer.Mean = 0, Timer.Median = 0,
     Timer.Max = 0, Timer.Min = 0, Timer.StdDev = 0, Timer.Sum = 0, Timer.SumSquares = 0,
     Timer.Values = [], Timer.Percentiles = [], Timer.Timestamp = 0, Timer.Interval = i\<rparr>"

definition Set_lit :: "Duration \<Rightarrow> (string \<times> 64 word) list \<Rightarrow> Set" where
  "Set_lit i vs = \<lparr>Set.Values = vs, Set.Timestamp = 0, Set.Interval = i\<rparr>"

text \<open>
  Modelled from the spec: the constructors \<^verbatim>\<open>NewCounter\<close>, \<^verbatim>\<open>NewGauge\<close>, \<^verbatim>\<open>NewTimer\<close> and
  \<^verbatim>\<open>NewSet\<close> of the missing package \<^verbatim>\<open>types\<close>. A new record has the given value, the
  given flush interval as its interval and the given time as its timestamp.
\<close>

definition NewCounter :: "Time \<Rightarrow> Duration \<Rightarrow> 64 word \<Rightarrow> Counter" where
  "NewCounter timestamp flushInterval v =
     (Counter_lit flushInterval)\<lparr>Counter.Value := v, Counter.Timestamp := timestamp\<rparr>"

definition NewGauge :: "Time \<Rightarrow> Duration \<Rightarrow> real \<Rightarrow> Gauge" where
  "NewGauge timestamp flushInterval v =
     \<lparr>Gauge.Value = v, Gauge.Timestamp = timestamp, Gauge.Interval = flushInterval\<rparr>"

definition NewTimer :: "Time \<Rightarrow> Duration \<Rightarrow> real list \<Rightarrow> Timer" where
  "NewTimer timestamp flushInterval vs =
     (Timer_lit flushInterval)\<lparr>Timer.Values := vs, Timer.Timestamp := timestamp\<rparr>"

definition NewSet :: "Time \<Rightarrow> Duration \<Rightarrow> (string \<times> 64 word) list \<Rightarrow> Set" where
  "NewSet timestamp flushInterval vs = (Set_lit flushInterval vs)\<lparr>Set.Timestamp := timestamp\<rparr>"

text \<open>
  Modelled from the spec: \<^verbatim>\<open>timer.Percentiles.Set(key, value)\<close> of the missing package
  \<^verbatim>\<open>types\<close>. The percentile fields are keyed by their name, one entry for each key.
\<close>

definition Percentiles_Set :: "(string \<times> real) list \<Rightarrow> string \<Rightarrow> real \<Rightarrow> (string \<times> real) list" where
  "Percentiles_Set p k v = AList.update k v p"

section \<open>Timer finalisation (the body of the \<^verbatim>\<open>EachTimer\<close> callback of \<^verbatim>\<open>flush\<close>)\<close>

text \<open>\<^verbatim>\<open>round\<close>: \<^verbatim>\<open>math.Floor(v + 0.5)\<close>.\<close>

definition round' :: "real \<Rightarrow> real" where
  "round' v = real_of_int \<lfloor>v + 0.5\<rfloor>"

text \<open>
  The loop of lines 93 to 97: \<open>i\<close> runs over the samples after the first, and
  \<^verbatim>\<open>cumulativeValues[i-1]\<close> is the element appended last.
\<close>

fun cumul_loop :: "real list \<Rightarrow> real list \<times> real list \<Rightarrow> real list \<times> real list" where
  "cumul_loop [] acc = acc"
| "cumul_loop (v # vs) (cumulativeValues, cumulSumSquaresValues) =
     cumul_loop vs (cumulativeValues @ [v + last cumulativeValues],
                    cumulSumSquaresValues @ [v * v + last cumulSumSquaresValues])"

text \<open>The variables declared at lines 99 to 102, which the percentile loop updates.\<close>

record pctVars =
  sumSquares :: real
  mean :: real
  sum_v :: real
  thresholdBoundary :: real
  percentiles :: "(string \<times> real) list"

text \<open>One iteration of the loop of lines 104 to 133, for the threshold \<open>pct\<close>.\<close>

definition numInThreshold_of :: "int \<Rightarrow> real \<Rightarrow> int" where
  "numInThreshold_of cnt pct =
     (if cnt > 1 then int_of_float (round' (\<bar>pct\<bar> / 100 * real_of_int cnt)) else cnt)"

definition pct_update :: "int \<Rightarrow> real list \<Rightarrow> real list \<Rightarrow> real list \<Rightarrow> real \<Rightarrow> int \<Rightarrow> pctVars
    \<Rightarrow> error + pctVars" where
  "pct_update cnt vals cumulativeValues cumulSumSquaresValues pct numInThreshold s =
     bindE
       (if pct > 0 then
          bindE (index vals (numInThreshold - 1)) (\<lambda>tb.
          bindE (index cumulativeValues (numInThreshold - 1)) (\<lambda>sm.
          bindE (index cumulSumSquaresValues (numInThreshold - 1)) (\<lambda>sq.
            Inr (s\<lparr>thresholdBoundary := tb, sum_v := sm, sumSquares := sq\<rparr>))))
        else
          bindE (index vals (cnt - numInThreshold)) (\<lambda>tb.
          bindE (index cumulativeValues (cnt - 1)) (\<lambda>s1.
          bindE (index cumulativeValues (cnt - numInThreshold - 1)) (\<lambda>s0.
          bindE (index cumulSumSquaresValues (cnt - 1)) (\<lambda>q1.
          bindE (index cumulSumSquaresValues (cnt - numInThreshold - 1)) (\<lambda>q0.
            Inr (s\<lparr>thresholdBoundary := tb, sum_v := s1 - s0, sumSquares := q1 - q0\<rparr>)))))))
       (\<lambda>s'. Inr (s'\<lparr>mean := sum_v s' / real_of_int numInThreshold\<rparr>))"

definition pct_emit :: "real \<Rightarrow> int \<Rightarrow> pctVars \<Rightarrow> pctVars" where
  "pct_emit pct numInThreshold s =
     (let sPct = Sprintf_d (int_of_float pct);
          p1 = Percentiles_Set (percentiles s) (''count_'' @ sPct) (real_of_int numInThreshold);
          p2 = Percentiles_Set p1 (''mean_'' @ sPct) (mean s);
          p3 = Percentiles_Set p2 (''sum_'' @ sPct) (sum_v s);
          p4 = Percentiles_Set p3 (''sum_squares_'' @ sPct) (sumSquares s);
          p5 = (if pct > 0 then Percentiles_Set p4 (''upper_'' @ sPct) (thresholdBoundary s)
                else Percentiles_Set p4 (''lower_'' @ sPct) (thresholdBoundary s))
      in s\<lparr>percentiles := p5\<rparr>)"

definition pct_step :: "int \<Rightarrow> real list \<Rightarrow> real list \<Rightarrow> real list \<Rightarrow> real \<Rightarrow> pctVars
    \<Rightarrow> error + pctVars" where
  "pct_step cnt vals cumulativeValues cumulSumSquaresValues pct s =
     (let numInThreshold = numInThreshold_of cnt pct in
      if cnt > 1 then
        (if numInThreshold = 0 then Inr s
         else bindE (pct_update cnt vals cumulativeValues cumulSumSquaresValues pct numInThreshold s)
                (\<lambda>s'. Inr (pct_emit pct numInThreshold s')))
      else Inr (pct_emit pct numInThreshold s))"

fun pct_loop :: "int \<Rightarrow> real list \<Rightarrow> real list \<Rightarrow> real list \<Rightarrow> real list \<Rightarrow> pctVars
    \<Rightarrow> error + pctVars" where
  "pct_loop cnt vals cv css [] s = Inr s"
| "pct_loop cnt vals cv css (pct # pcts) s =
     bindE (pct_step cnt vals cv css pct s) (pct_loop cnt vals cv css pcts)"

text \<open>Lines 139 to 142.\<close>

definition sumOfDiffs_loop :: "real \<Rightarrow> real list \<Rightarrow> real" where
  "sumOfDiffs_loop m vals = foldl (\<lambda>sumOfDiffs v. sumOfDiffs + (v - m) * (v - m)) 0 vals"

text \<open>
  Lines 144 to 149. \<open>count\<close> is the integer \<^verbatim>\<open>timer.Count\<close> as a float, so
  \<^verbatim>\<open>math.Mod(count, 2) == 0\<close> is the parity of \<^verbatim>\<open>timer.Count\<close>.
\<close>

definition median_of :: "int \<Rightarrow> real list \<Rightarrow> error + real" where
  "median_of cnt vals =
     (let mid = int_of_float (real_of_int \<lfloor>real_of_int cnt / 2\<rfloor>) in
      if cnt mod 2 = 0 then
        bindE (index vals (mid - 1)) (\<lambda>a. bindE (index vals mid) (\<lambda>b. Inr ((a + b) / 2)))
      else index vals mid)"

text \<open>
  Lines 85 to 155: the timer that the callback stores when \<^verbatim>\<open>len(timer.Values) > 0\<close>.
\<close>

definition finalize_timer :: "Duration \<Rightarrow> real list \<Rightarrow> Timer \<Rightarrow> error + Timer" where
  "finalize_timer flushInterval percentThresholds timer0 =
     (let vals = sort (Timer.Values timer0);
          cnt = int (length vals) in
      bindE (index vals 0) (\<lambda>mn.
      bindE (index vals (cnt - 1)) (\<lambda>mx.
        let timer1 = timer0\<lparr>Timer.Values := vals, Timer.Min := mn, Timer.Max := mx,
                            Timer.Count := cnt\<rparr>;
            count = real_of_int cnt;
            (cumulativeValues, cumulSumSquaresValues) = cumul_loop (tl vals) ([mn], [mn * mn]);
            s0 = \<lparr>sumSquares = mn * mn, mean = mn, sum_v = mn, thresholdBoundary = mx,
                  percentiles = Timer.Percentiles timer1\<rparr>
        in
        bindE (pct_loop cnt vals cumulativeValues cumulSumSquaresValues percentThresholds s0) (\<lambda>s.
        bindE (index cumulativeValues (cnt - 1)) (\<lambda>sm.
        bindE (index cumulSumSquaresValues (cnt - 1)) (\<lambda>sq.
          let m = sm / count;
              sumOfDiffs = sumOfDiffs_loop m vals
          in
          bindE (median_of cnt vals) (\<lambda>med.
            Inr (timer1\<lparr>Timer.Percentiles := percentiles s, Timer.Median := med,
                         Timer.Mean := m, Timer.StdDev := sqrt (sumOfDiffs / count),
                         Timer.Sum := sm, Timer.SumSquares := sq,
                         Timer.PerSecond := count / Seconds flushInterval\<rparr>))))))))"

section \<open>The aggregator state\<close>

text \<open>A map from metric name to a map from tag key to a record of one kind.\<close>

type_synonym 'v nested = "(string \<times> (string \<times> 'v) list) list"

record MetricMap =
  NumStats :: int
  ProcessingTime :: Duration
  FlushInterval :: Duration
  Counters :: "Counter nested"
  Timers :: "Timer nested"
  Gauges :: "Gauge nested"
  Sets :: "Set nested"

record metricAggregatorStats =
  BadLines :: "64 word"
  LastMessage :: Time
  LastFlush :: Time
  LastFlushError :: Time
  NumStats :: int
  ProcessingTime :: Duration

text \<open>
  \<^verbatim>\<open>MetricAggregator\<close> embeds \<^verbatim>\<open>types.MetricMap\<close>: the record extends it. The mutex, the
  queue and the senders are left out.
\<close>

record MetricAggregator = MetricMap +
  ExpiryInterval :: Duration
  FlushInterval :: Duration
  MaxWorkers :: int
  PercentThresholds :: "real list"
  Stats :: metricAggregatorStats

definition NewMetricAggregator :: "real list \<Rightarrow> Duration \<Rightarrow> Duration \<Rightarrow> int \<Rightarrow> MetricAggregator" where
  "NewMetricAggregator percentThresholds flushInterval expiryInterval maxWorkers =
     \<lparr>MetricMap.NumStats = 0, MetricMap.ProcessingTime = 0, MetricMap.FlushInterval = 0,
      Counters = [], Timers = [], Gauges = [], Sets = [],
      ExpiryInterval = expiryInterval, MetricAggregator.FlushInterval = flushInterval,
      MaxWorkers = maxWorkers, PercentThresholds = percentThresholds,
      Stats = \<lparr>BadLines = 0, LastMessage = 0, LastFlush = 0, LastFlushError = 0,
               metricAggregatorStats.NumStats = 0, metricAggregatorStats.ProcessingTime = 0\<rparr>\<rparr>"

subsection \<open>Reading and writing \<^verbatim>\<open>m[key][tagsKey]\<close>\<close>

text \<open>\<^verbatim>\<open>x, ok := m[key][tagsKey]\<close>: reading a missing inner map gives \<open>not ok\<close>.\<close>

definition lookup2 :: "'v nested \<Rightarrow> string \<Rightarrow> string \<Rightarrow> 'v option" where
  "lookup2 m key tagsKey = (case map_of m key of None \<Rightarrow> None | Some v \<Rightarrow> map_of v tagsKey)"

text \<open>
  \<^verbatim>\<open>m[key][tagsKey] = x\<close> where \<open>v\<close> is the inner map \<^verbatim>\<open>m[key]\<close>, which the caller has in
  hand.
\<close>

definition store2 :: "'v nested \<Rightarrow> string \<Rightarrow> (string \<times> 'v) list \<Rightarrow> string \<Rightarrow> 'v \<Rightarrow> 'v nested" where
  "store2 m key v tagsKey x = AList.update key (AList.update tagsKey x v) m"

text \<open>\<^verbatim>\<open>m[key][tagsKey] = x\<close> in a callback: writing into a missing inner map panics.\<close>

definition assign2 :: "'v nested \<Rightarrow> string \<Rightarrow> string \<Rightarrow> 'v \<Rightarrow> error + 'v nested" where
  "assign2 m key tagsKey x =
     (case map_of m key of None \<Rightarrow> Inl NilMapAssignment
      | Some v \<Rightarrow> Inr (store2 m key v tagsKey x))"

text \<open>
  \<^verbatim>\<open>delete(m[key], tagsKey); if len(m[key]) == 0 { delete(m, key) }\<close>. Deleting from a
  missing inner map does nothing, and its length is zero.
\<close>

definition delete2 :: "'v nested \<Rightarrow> string \<Rightarrow> string \<Rightarrow> 'v nested" where
  "delete2 m key tagsKey =
     (case map_of m key of None \<Rightarrow> AList.delete key m
      | Some v \<Rightarrow>
          (let v' = AList.delete tagsKey v in
           if length v' = 0 then AList.delete key m else AList.update key v' m))"

subsection \<open>The iterators \<^verbatim>\<open>EachCounter\<close>, \<^verbatim>\<open>EachTimer\<close>, \<^verbatim>\<open>EachGauge\<close>, \<^verbatim>\<open>EachSet\<close>\<close>

text \<open>
  Modelled from the spec: the iterators of the missing package \<^verbatim>\<open>types\<close>, which walk
  every pair (name, tag key) of a map. Each of them calls \<open>f key tagsKey x\<close> for every
  entry of every inner map. The callback works on a state, and a panic ends the walk. The
  walk visits the entries that the map held when it began; every callback of
  \<^verbatim>\<open>aggregator.go\<close> writes or deletes the entry it is called for and no other, so a
  \<^verbatim>\<open>range\<close> over the live map visits the same entries with the same records.
\<close>

definition entries :: "'v nested \<Rightarrow> (string \<times> string \<times> 'v) list" where
  "entries m = concat (map (\<lambda>(key, v). map (\<lambda>(tagsKey, x). (key, tagsKey, x)) v) m)"

fun foldE :: "('x \<Rightarrow> 's \<Rightarrow> error + 's) \<Rightarrow> 'x list \<Rightarrow> 's \<Rightarrow> error + 's" where
  "foldE f [] s = Inr s"
| "foldE f (x # xs) s = bindE (f x s) (foldE f xs)"

definition Each :: "'v nested \<Rightarrow> (string \<Rightarrow> string \<Rightarrow> 'v \<Rightarrow> 's \<Rightarrow> error + 's) \<Rightarrow> 's \<Rightarrow> error + 's" where
  "Each m f s = foldE (\<lambda>(key, tagsKey, x). f key tagsKey x) (entries m) s"

abbreviation EachCounter :: "Counter nested \<Rightarrow> (string \<Rightarrow> string \<Rightarrow> Counter \<Rightarrow> 's \<Rightarrow> error + 's)
    \<Rightarrow> 's \<Rightarrow> error + 's" where
  "EachCounter \<equiv> Each"

abbreviation EachTimer :: "Timer nested \<Rightarrow> (string \<Rightarrow> string \<Rightarrow> Timer \<Rightarrow> 's \<Rightarrow> error + 's)
    \<Rightarrow> 's \<Rightarrow> error + 's" where
  "EachTimer \<equiv> Each"

abbreviation EachGauge :: "Gauge nested \<Rightarrow> (string \<Rightarrow> string \<Rightarrow> Gauge \<Rightarrow> 's \<Rightarrow> error + 's)
    \<Rightarrow> 's \<Rightarrow> error + 's" where
  "EachGauge \<equiv> Each"

abbreviation EachSet :: "Set nested \<Rightarrow> (string \<Rightarrow> string \<Rightarrow> Set \<Rightarrow> 's \<Rightarrow> error + 's)
    \<Rightarrow> 's \<Rightarrow> error + 's" where
  "EachSet \<equiv> Each"

text \<open>
  Modelled from the spec: \<^verbatim>\<open>types.CopyCounters\<close>, \<^verbatim>\<open>CopyTimers\<close>, \<^verbatim>\<open>CopyGauges\<close> and
  \<^verbatim>\<open>CopySets\<close> of the missing package make independent deep copies: the copy has the
  contents of the map.
\<close>

definition CopyCounters :: "Counter nested \<Rightarrow> Counter nested" where
  "CopyCounters c = c"

definition CopyTimers :: "Timer nested \<Rightarrow> Timer nested" where
  "CopyTimers c = c"

definition CopyGauges :: "Gauge nested \<Rightarrow> Gauge nested" where
  "CopyGauges c = c"

definition CopySets :: "Set nested \<Rightarrow> Set nested" where
  "CopySets c = c"

section \<open>\<^verbatim>\<open>flush\<close>\<close>

text \<open>The callbacks work on the aggregator and the local variable \<^verbatim>\<open>numStats\<close>.\<close>

definition flush_counter :: "string \<Rightarrow> string \<Rightarrow> Counter \<Rightarrow> MetricAggregator \<times> int
    \<Rightarrow> error + MetricAggregator \<times> int" where
  "flush_counter key tagsKey counter = (\<lambda>(a, numStats).
     let perSecond = float64 (Counter.Value counter) / Seconds (MetricAggregator.FlushInterval a);
         counter' = counter\<lparr>Counter.PerSecond := perSecond\<rparr>
     in bindE (assign2 (Counters a) key tagsKey counter')
          (\<lambda>c. Inr (a\<lparr>Counters := c\<rparr>, numStats + 2)))"

definition flush_timer :: "string \<Rightarrow> string \<Rightarrow> Timer \<Rightarrow> MetricAggregator \<times> int
    \<Rightarrow> error + MetricAggregator \<times> int" where
  "flush_timer key tagsKey timer = (\<lambda>(a, numStats).
     if length (Timer.Values timer) > 0 then
       bindE (finalize_timer (MetricAggregator.FlushInterval a) (PercentThresholds a) timer)
         (\<lambda>timer'.
       bindE (assign2 (Timers a) key tagsKey timer') (\<lambda>t.
         Inr (a\<lparr>Timers := t\<rparr>, numStats + 9 + int (length (Timer.Percentiles timer')))))
     else Inr (a, numStats))"

text \<open>
  \<open>startTime\<close> and \<open>endTime\<close> are the two readings of \<^verbatim>\<open>time.Now()\<close>. The result is the
  aggregator after the call and the returned snapshot.
\<close>

text \<open>Lines 165 to 185: the sets' tally, the statistics and the returned snapshot.\<close>

definition flush_finish :: "MetricAggregator \<Rightarrow> int \<Rightarrow> Time \<Rightarrow> Time \<Rightarrow> MetricAggregator \<times> MetricMap" where
  "flush_finish a2 n3 startTime endTime =
     (let numStats = fold (\<lambda>(key, sets) numStats. numStats + int (length sets)) (Sets a2) n3;
          processingTime = Sub endTime startTime;
          a3 = a2\<lparr>Stats := (Stats a2)\<lparr>metricAggregatorStats.NumStats := numStats,
                   metricAggregatorStats.ProcessingTime := processingTime\<rparr>\<rparr>;
          a4 = (case lookup2 (Counters a3) ''statsd.bad_lines_seen'' [] of
                  Some badLines \<Rightarrow>
                    a3\<lparr>Stats := (Stats a3)\<lparr>BadLines := BadLines (Stats a3) + Counter.Value badLines\<rparr>\<rparr>
                | None \<Rightarrow> a3)
      in (a4,
          \<lparr>MetricMap.NumStats = numStats,
           MetricMap.ProcessingTime = metricAggregatorStats.ProcessingTime (Stats a4),
           MetricMap.FlushInterval = MetricAggregator.FlushInterval a4,
           Counters = CopyCounters (Counters a4),
           Timers = CopyTimers (Timers a4),
           Gauges = CopyGauges (Gauges a4),
           Sets = CopySets (Sets a4)\<rparr>))"

definition flush :: "MetricAggregator \<Rightarrow> Time \<Rightarrow> Time \<Rightarrow> error + MetricAggregator \<times> MetricMap" where
  "flush a startTime endTime =
     bindE (EachCounter (Counters a) flush_counter (a, 0)) (\<lambda>(a1, n1).
       let n2 = fold (\<lambda>(key, gauges) numStats. numStats + int (length gauges)) (Gauges a1) n1 in
     bindE (EachTimer (Timers a1) flush_timer (a1, n2)) (\<lambda>(a2, n3).
       Inr (flush_finish a2 n3 startTime endTime)))"

section \<open>\<^verbatim>\<open>Reset\<close>\<close>

definition isExpired :: "MetricAggregator \<Rightarrow> Time \<Rightarrow> Time \<Rightarrow> bool" where
  "isExpired a now ts \<longleftrightarrow> ExpiryInterval a \<noteq> 0 \<and> Sub now ts > ExpiryInterval a"

definition reset_counter :: "Time \<Rightarrow> string \<Rightarrow> string \<Rightarrow> Counter \<Rightarrow> MetricAggregator
    \<Rightarrow> error + MetricAggregator" where
  "reset_counter now key tagsKey counter a =
     (if isExpired a now (Counter.Timestamp counter) then
        Inr (a\<lparr>Counters := delete2 (Counters a) key tagsKey\<rparr>)
      else
        (let interval = Counter.Interval counter in
         bindE (assign2 (Counters a) key tagsKey (Counter_lit interval))
           (\<lambda>c. Inr (a\<lparr>Counters := c\<rparr>))))"

definition reset_timer :: "Time \<Rightarrow> string \<Rightarrow> string \<Rightarrow> Timer \<Rightarrow> MetricAggregator
    \<Rightarrow> error + MetricAggregator" where
  "reset_timer now key tagsKey timer a =
     (if isExpired a now (Timer.Timestamp timer) then
        Inr (a\<lparr>Timers := delete2 (Timers a) key tagsKey\<rparr>)
      else
        (let interval = Timer.Interval timer in
         bindE (assign2 (Timers a) key tagsKey (Timer_lit interval))
           (\<lambda>t. Inr (a\<lparr>Timers := t\<rparr>))))"

definition reset_set :: "Time \<Rightarrow> string \<Rightarrow> string \<Rightarrow> Set \<Rightarrow> MetricAggregator
    \<Rightarrow> error + MetricAggregator" where
  "reset_set now key tagsKey set' a =
     (if isExpired a now (Set.Timestamp set') then
        Inr (a\<lparr>Sets := delete2 (Sets a) key tagsKey\<rparr>)
      else
        (let interval = Set.Interval set' in
         bindE (assign2 (Sets a) key tagsKey (Set_lit interval []))
           (\<lambda>t. Inr (a\<lparr>Sets := t\<rparr>))))"

definition reset_gauge :: "Time \<Rightarrow> string \<Rightarrow> string \<Rightarrow> Gauge \<Rightarrow> MetricAggregator
    \<Rightarrow> error + MetricAggregator" where
  "reset_gauge now key tagsKey gauge a =
     (if isExpired a now (Gauge.Timestamp gauge) then
        Inr (a\<lparr>Gauges := delete2 (Gauges a) key tagsKey\<rparr>)
      else Inr a)"

definition Reset :: "MetricAggregator \<Rightarrow> Time \<Rightarrow> error + MetricAggregator" where
  "Reset a now =
     (let a0 = a\<lparr>MetricMap.NumStats := 0\<rparr> in
      bindE (EachCounter (Counters a0) (reset_counter now) a0) (\<lambda>a1.
      bindE (EachTimer (Timers a1) (reset_timer now) a1) (\<lambda>a2.
      bindE (EachSet (Sets a2) (reset_set now) a2) (\<lambda>a3.
      EachGauge (Gauges a3) (reset_gauge now) a3))))"

section \<open>\<^verbatim>\<open>receiveMetric\<close>\<close>

text \<open>
  \<open>Tags_String\<close> is \<^verbatim>\<open>m.Tags.String()\<close>, a function of the missing package, taken as a
  parameter. \<open>now\<close> is the argument of the call, \<open>wallclock\<close> the reading of
  \<^verbatim>\<open>time.Now()\<close> at line 323.
\<close>

definition receiveMetric :: "(string list \<Rightarrow> string) \<Rightarrow> MetricAggregator \<Rightarrow> Metric \<Rightarrow> Time \<Rightarrow> Time
    \<Rightarrow> MetricAggregator" where
  "receiveMetric Tags_String a m now wallclock =
     (let tagsKey = Tags_String (Tags m);
          flushInterval = MetricAggregator.FlushInterval a;
          a' =
           (case Type m of
              COUNTER \<Rightarrow>
                (case map_of (Counters a) (Name m) of
                   Some v \<Rightarrow>
                     (case map_of v tagsKey of
                        Some c \<Rightarrow>
                          a\<lparr>Counters := store2 (Counters a) (Name m) v tagsKey
                            (c\<lparr>Counter.Value := Counter.Value c + int64 (Metric.Value m)\<rparr>)\<rparr>
                      | None \<Rightarrow>
                          a\<lparr>Counters := store2 (Counters a) (Name m) v tagsKey
                            (NewCounter now flushInterval (int64 (Metric.Value m)))\<rparr>)
                 | None \<Rightarrow>
                     a\<lparr>Counters := store2 (Counters a) (Name m) [] tagsKey
                       (NewCounter now flushInterval (int64 (Metric.Value m)))\<rparr>)
            | GAUGE \<Rightarrow>
                (case map_of (Gauges a) (Name m) of
                   Some v \<Rightarrow>
                     (case map_of v tagsKey of
                        Some g \<Rightarrow>
                          a\<lparr>Gauges := store2 (Gauges a) (Name m) v tagsKey
                            (g\<lparr>Gauge.Value := Metric.Value m\<rparr>)\<rparr>
                      | None \<Rightarrow>
                          a\<lparr>Gauges := store2 (Gauges a) (Name m) v tagsKey
                            (NewGauge now flushInterval (Metric.Value m))\<rparr>)
                 | None \<Rightarrow>
                     a\<lparr>Gauges := store2 (Gauges a) (Name m) [] tagsKey
                       (NewGauge now flushInterval (Metric.Value m))\<rparr>)
            | TIMER \<Rightarrow>
                (case map_of (Timers a) (Name m) of
                   Some v \<Rightarrow>
                     (case map_of v tagsKey of
                        Some t \<Rightarrow>
                          a\<lparr>Timers := store2 (Timers a) (Name m) v tagsKey
                            (t\<lparr>Timer.Values := Timer.Values t @ [Metric.Value m]\<rparr>)\<rparr>
                      | None \<Rightarrow>
                          a\<lparr>Timers := store2 (Timers a) (Name m) v tagsKey
                            (NewTimer now flushInterval [Metric.Value m])\<rparr>)
                 | None \<Rightarrow>
                     a\<lparr>Timers := store2 (Timers a) (Name m) [] tagsKey
                       (NewTimer now flushInterval [Metric.Value m])\<rparr>)
            | SET \<Rightarrow>
                (case map_of (Sets a) (Name m) of
                   Some v \<Rightarrow>
                     (case map_of v tagsKey of
                        Some s \<Rightarrow>
                          (let vals =
                             (case map_of (Set.Values s) (StringValue m) of
                                Some n \<Rightarrow> AList.update (StringValue m) (n + 1) (Set.Values s)
                              | None \<Rightarrow> AList.update (StringValue m) 1 (Set.Values s))
                           in a\<lparr>Sets := store2 (Sets a) (Name m) v tagsKey
                                 (s\<lparr>Set.Values := vals\<rparr>)\<rparr>)
                      | None \<Rightarrow>
                          (let unique = AList.update (StringValue m) 1 [] in
                           a\<lparr>Sets := store2 (Sets a) (Name m) v tagsKey
                             (NewSet now flushInterval unique)\<rparr>))
                 | None \<Rightarrow>
                     (let unique = AList.update (StringValue m) 1 [] in
                      a\<lparr>Sets := store2 (Sets a) (Name m) [] tagsKey
                        (NewSet now flushInterval unique)\<rparr>))
            | OTHER k \<Rightarrow> a)
      in a'\<lparr>Stats := (Stats a')\<lparr>LastMessage := wallclock\<rparr>\<rparr>)"

section \<open>Well-formed states\<close>

text \<open>
  A Go map holds each key once. The association lists of a state are well formed when
  their keys are distinct, at both levels.
\<close>

definition wf_nested :: "'v nested \<Rightarrow> bool" where
  "wf_nested m \<longleftrightarrow> distinct (map fst m) \<and> (\<forall>(key, v) \<in> set m. distinct (map fst v))"

definition wf_state :: "MetricAggregator \<Rightarrow> bool" where
  "wf_state a \<longleftrightarrow> wf_nested (Counters a) \<and> wf_nested (Timers a) \<and> wf_nested (Gauges a)
     \<and> wf_nested (Sets a)"

text \<open>The key of an entry that an iterator visits.\<close>

definition key_of :: "string \<times> string \<times> 'v \<Rightarrow> string \<times> string" where
  "key_of e = (fst e, fst (snd e))"

section \<open>What \<^verbatim>\<open>Reset\<close> leaves under a key\<close>

text \<open>
  The record that the callbacks of \<^verbatim>\<open>Reset\<close> leave in place of a record, \<open>None\<close> when
  they delete it.
\<close>

definition reset_counter_result :: "MetricAggregator \<Rightarrow> Time \<Rightarrow> Counter \<Rightarrow> Counter option" where
  "reset_counter_result a now c =
     (if isExpired a now (Counter.Timestamp c) then None
      else Some (Counter_lit (Counter.Interval c)))"

definition reset_timer_result :: "MetricAggregator \<Rightarrow> Time \<Rightarrow> Timer \<Rightarrow> Timer option" where
  "reset_timer_result a now t =
     (if isExpired a now (Timer.Timestamp t) then None
      else Some (Timer_lit (Timer.Interval t)))"

definition reset_set_result :: "MetricAggregator \<Rightarrow> Time \<Rightarrow> Set \<Rightarrow> Set option" where
  "reset_set_result a now s =
     (if isExpired a now (Set.Timestamp s) then None
      else Some (Set_lit (Set.Interval s) []))"

definition reset_gauge_result :: "MetricAggregator \<Rightarrow> Time \<Rightarrow> Gauge \<Rightarrow> Gauge option" where
  "reset_gauge_result a now g =
     (if isExpired a now (Gauge.Timestamp g) then None else Some g)"

section \<open>Example states\<close>

text \<open>
  A state with one series of each kind, stamped at 1 s, with a flush interval of 1 s and an
  expiry interval of 2 s.
\<close>

definition example_state :: MetricAggregator where
  "example_state =
     (NewMetricAggregator [90] 1000000000 2000000000 4)
       \<lparr>Counters := [(''hits'', [([], NewCounter 1000000000 1000000000 3)])],
        Timers := [(''latency'', [([], NewTimer 1000000000 1000000000 [5, 1, 3])])],
        Gauges := [(''load'', [([], NewGauge 1000000000 1000000000 7)])],
        Sets := [(''users'', [([], NewSet 1000000000 1000000000 [(''a'', 2), (''b'', 1)])])]\<rparr>"

text \<open>Example records of the queue, with no tags.\<close>

definition example_metric :: "string \<Rightarrow> MetricType \<Rightarrow> real \<Rightarrow> Metric" where
  "example_metric name kind v =
     \<lparr>Name = name, Type = kind, Metric.Value = v, StringValue = [], Tags = []\<rparr>"

text \<open>
  The expiry scenario: an aggregator with a flush interval of 1 s and the expiry interval
  \<open>e\<close>; the counters \<open>m1\<close> and \<open>m2\<close> are folded at \<open>t0\<close>, and \<open>m1\<close> again one second
  later.
\<close>

definition expiry_scenario :: "(string list \<Rightarrow> string) \<Rightarrow> Duration \<Rightarrow> Metric \<Rightarrow> Metric \<Rightarrow> Time
    \<Rightarrow> MetricAggregator" where
  "expiry_scenario TS e m1 m2 t0 =
     receiveMetric TS
       (receiveMetric TS
          (receiveMetric TS (NewMetricAggregator [90] 1000000000 e 4) m1 t0 t0)
          m2 t0 t0)
       m1 (t0 + 1000000000) (t0 + 1000000000)"

section \<open>Thresholds that the percentile loop can index\<close>

text \<open>
  The condition under which one iteration of the percentile loop reads inside its slices,
  for a timer of \<open>cnt\<close> samples: the upper tail reads index \<open>n - 1\<close>, the lower tail reads
  the indices \<open>cnt - n\<close> and \<open>cnt - n - 1\<close>.
\<close>

definition threshold_safe :: "int \<Rightarrow> real \<Rightarrow> bool" where
  "threshold_safe cnt pct \<longleftrightarrow>
     cnt \<le> 1 \<or> numInThreshold_of cnt pct = 0 \<or>
     (if pct > 0 then numInThreshold_of cnt pct \<le> cnt else numInThreshold_of cnt pct < cnt)"

text \<open>
  The closed form of the statistics of lines 135 to 155 for a timer \<open>t\<close> with samples,
  given the percentile fields \<open>ps\<close> that the loop has emitted, and the variables of
  lines 99 to 102 before the loop.
\<close>

definition timer_stats :: "Duration \<Rightarrow> Timer \<Rightarrow> (string \<times> real) list \<Rightarrow> Timer" where
  "timer_stats fi t ps =
     (let vs = Timer.Values t; vals = sort vs; n = length vs; m = sum_list vs / real n in
      t\<lparr>Timer.Values := vals, Timer.Min := hd vals, Timer.Max := last vals,
         Timer.Count := int n, Timer.Percentiles := ps,
         Timer.Median := (if even n then (vals ! (n div 2 - 1) + vals ! (n div 2)) / 2
                          else vals ! (n div 2)),
         Timer.Mean := m,
         Timer.StdDev := sqrt ((\<Sum>v\<leftarrow>vs. (v - m) * (v - m)) / real n),
         Timer.Sum := sum_list vs,
         Timer.SumSquares := (\<Sum>v\<leftarrow>vs. v * v),
         Timer.PerSecond := real n / Seconds fi\<rparr>)"

definition pct_init :: "Timer \<Rightarrow> pctVars" where
  "pct_init t =
     (let vals = sort (Timer.Values t) in
      \<lparr>sumSquares = hd vals * hd vals, mean = hd vals, sum_v = hd vals,
       thresholdBoundary = last vals, percentiles = Timer.Percentiles t\<rparr>)"

section \<open>What \<^verbatim>\<open>flush\<close> leaves under a key\<close>

text \<open>
  The record that the callbacks of \<^verbatim>\<open>flush\<close> leave in place of a record. A timer with no
  samples is not written back; for a timer with samples the callback stores the finalised
  timer, and panics when there is none.
\<close>

definition flush_counter_result :: "MetricAggregator \<Rightarrow> Counter \<Rightarrow> Counter" where
  "flush_counter_result a c =
     c\<lparr>Counter.PerSecond :=
          float64 (Counter.Value c) / Seconds (MetricAggregator.FlushInterval a)\<rparr>"

definition flush_timer_result :: "MetricAggregator \<Rightarrow> Timer \<Rightarrow> Timer option" where
  "flush_timer_result a t =
     (if Timer.Values t = [] then Some t
      else (case finalize_timer (MetricAggregator.FlushInterval a) (PercentThresholds a) t of
              Inr t' \<Rightarrow> Some t' | Inl e \<Rightarrow> None))"

text \<open>Every timer of the state can be finalised with the configured thresholds.\<close>

definition timers_safe :: "MetricAggregator \<Rightarrow> bool" where
  "timers_safe a \<longleftrightarrow>
     (\<forall>(key, v) \<in> set (Timers a). \<forall>(tagsKey, t) \<in> set v.
        \<forall>p \<in> set (PercentThresholds a). threshold_safe (int (length (Timer.Values t))) p)"

section \<open>The ingest loop\<close>


section \<open>The series of a map\<close>

text \<open>The set of pairs (name, tag key) that a map of one kind holds.\<close>

definition series :: "'v nested \<Rightarrow> (string \<times> string) set" where
  "series m = set (map key_of (entries m))"

section \<open>The increments of a counter series\<close>

text \<open>
  The amounts that the folds of a queue add to the counter series (name, tag key): the
  increment of a record is \<^verbatim>\<open>int64(m.Value)\<close> (lines 258, 261 and 265).
\<close>

fun increments :: "(string list \<Rightarrow> string) \<Rightarrow> string \<Rightarrow> string \<Rightarrow> (Metric \<times> Time \<times> Time) list
    \<Rightarrow> 64 word list" where
  "increments TS name tagsKey [] = []"
| "increments TS name tagsKey ((m, now, wallclock) # queue) =
     (if Type m = COUNTER \<and> Name m = name \<and> TS (Tags m) = tagsKey
      then int64 (Metric.Value m) # increments TS name tagsKey queue
      else increments TS name tagsKey queue)"

text \<open>The values \<^verbatim>\<open>m.Value\<close> of these folds, before the conversion.\<close>

fun increment_values :: "(string list \<Rightarrow> string) \<Rightarrow> string \<Rightarrow> string
    \<Rightarrow> (Metric \<times> Time \<times> Time) list \<Rightarrow> real list" where
  "increment_values TS name tagsKey [] = []"
| "increment_values TS name tagsKey ((m, now, wallclock) # queue) =
     (if Type m = COUNTER \<and> Name m = name \<and> TS (Tags m) = tagsKey
      then Metric.Value m # increment_values TS name tagsKey queue
      else increment_values TS name tagsKey queue)"



section \<open>Lemmas on the nested maps and the iterators\<close>


lemma bindE_Inr_iff: "bindE m f = Inr y \<longleftrightarrow> (\<exists>x. m = Inr x \<and> f x = Inr y)"
  by (cases m) (simp_all add: bindE_def)

lemma bindE_simps [simp]: "bindE (Inl e) f = Inl e" "bindE (Inr x) f = f x"
  by (simp_all add: bindE_def)

lemma lookup2_store2:
  "lookup2 (store2 m key v tagsKey x) k tk =
     (if k = key then (if tk = tagsKey then Some x else map_of v tk) else lookup2 m k tk)"
  by (simp add: lookup2_def store2_def update_conv')

lemma lookup2_store2_present:
  assumes "map_of m key = Some v"
  shows "lookup2 (store2 m key v tagsKey x) k tk =
     (if k = key \<and> tk = tagsKey then Some x else lookup2 m k tk)"
  using assms by (simp add: lookup2_store2) (simp add: lookup2_def)

lemma lookup2_store2_absent:
  assumes "map_of m key = None"
  shows "lookup2 (store2 m key [] tagsKey x) k tk =
     (if k = key \<and> tk = tagsKey then Some x else lookup2 m k tk)"
  using assms by (simp add: lookup2_store2) (simp add: lookup2_def)

lemma assign2_Inr:
  assumes "assign2 m key tagsKey x = Inr m'"
  shows "lookup2 m' k tk = (if k = key \<and> tk = tagsKey then Some x else lookup2 m k tk)"
  using assms by (auto simp: assign2_def lookup2_store2_present split: option.splits)

lemma assign2_total:
  assumes "lookup2 m key tagsKey \<noteq> None"
  shows "\<exists>m'. assign2 m key tagsKey x = Inr m'"
  using assms by (auto simp: assign2_def lookup2_def split: option.splits)

lemma map_of_delete_Nil:
  assumes "AList.delete tk v = []" "tk' \<noteq> tk"
  shows "map_of v tk' = None"
proof -
  have "map_of (AList.delete tk v) tk' = map_of v tk'"
    using assms(2) by (simp add: delete_conv')
  with assms(1) show ?thesis by simp
qed

lemma lookup2_delete2:
  "lookup2 (delete2 m key tagsKey) k tk =
     (if k = key \<and> tk = tagsKey then None else lookup2 m k tk)"
  by (auto simp: lookup2_def delete2_def delete_conv' update_conv' Let_def map_of_delete_Nil
      split: option.splits)

lemma entries_Nil [simp]: "entries [] = []"
  by (simp add: entries_def)

lemma entries_Cons:
  "entries ((key, v) # m) = map (\<lambda>(tagsKey, x). (key, tagsKey, x)) v @ entries m"
  by (simp add: entries_def)

lemma entries_key_in:
  assumes "(k, tk, x) \<in> set (entries m)"
  shows "k \<in> fst ` set m"
  using assms by (induction m) (force simp: entries_Cons)+

lemma key_of_inner: "map key_of (map (\<lambda>(tagsKey, x). (key, tagsKey, x)) v) = map (\<lambda>tk. (key, tk)) (map fst v)"
  by (induction v) (auto simp: key_of_def)

lemma distinct_entries:
  assumes "wf_nested m"
  shows "distinct (map key_of (entries m))"
  using assms
proof (induction m)
  case Nil
  then show ?case by simp
next
  case (Cons p m)
  obtain key v where p: "p = (key, v)" by (cases p)
  from Cons.prems have wf: "wf_nested m" and dv: "distinct (map fst v)" and nk: "key \<notin> fst ` set m"
    by (auto simp: wf_nested_def p)
  have d1: "distinct (map (\<lambda>tk. (key, tk)) (map fst v))"
    using dv by (simp add: distinct_map inj_on_def)
  have notin: "\<And>tk x. (key, tk, x) \<notin> set (entries m)"
    using nk by (auto dest: entries_key_in)
  have "set (map (\<lambda>tk. (key, tk)) (map fst v)) \<inter> set (map key_of (entries m)) = {}"
    using notin by (auto simp: key_of_def)
  moreover have "map key_of (entries (p # m)) =
      map (\<lambda>tk. (key, tk)) (map fst v) @ map key_of (entries m)"
    by (simp only: p entries_Cons map_append key_of_inner)
  ultimately show ?case
    using d1 Cons.IH[OF wf] by (simp only: distinct_append)
qed

lemma entries_iff:
  assumes "wf_nested m"
  shows "(k, tk, x) \<in> set (entries m) \<longleftrightarrow> lookup2 m k tk = Some x"
  using assms
proof (induction m)
  case Nil
  then show ?case by (simp add: lookup2_def)
next
  case (Cons p m)
  obtain key v where p: "p = (key, v)" by (cases p)
  from Cons.prems have wf: "wf_nested m" and dv: "distinct (map fst v)" and nk: "key \<notin> fst ` set m"
    by (auto simp: wf_nested_def p)
  have notin: "\<And>tk x. (key, tk, x) \<notin> set (entries m)"
    using nk by (auto dest: entries_key_in)
  show ?case
  proof (cases "k = key")
    case True
    have "(key, tk, x) \<in> set (entries (p # m)) \<longleftrightarrow> (tk, x) \<in> set v"
      using notin by (auto simp: p entries_Cons)
    also have "\<dots> \<longleftrightarrow> map_of v tk = Some x"
      using dv by simp
    finally show ?thesis by (simp add: True p lookup2_def)
  next
    case False
    then show ?thesis using Cons.IH[OF wf]
      by (auto simp: p entries_Cons lookup2_def)
  qed
qed

lemma key_of_simp [simp]: "key_of (k, tk, x) = (k, tk)"
  by (simp add: key_of_def)

lemma foldE_lookup:
  fixes get :: "'s \<Rightarrow> 'v nested"
  assumes "foldE f es s = Inr s'"
    and "distinct (map key_of es)"
    and "P s"
    and "\<forall>e \<in> set es. lookup2 (get s) (fst e) (fst (snd e)) = Some (snd (snd e))"
    and step: "\<And>e t t'. e \<in> set es \<Longrightarrow> P t \<Longrightarrow>
           lookup2 (get t) (fst e) (fst (snd e)) = Some (snd (snd e)) \<Longrightarrow> f e t = Inr t' \<Longrightarrow>
           P t' \<and> (\<forall>k tk. lookup2 (get t') k tk =
                            (if (k, tk) = key_of e then g e else lookup2 (get t) k tk))"
  shows "P s' \<and> (\<forall>k tk. lookup2 (get s') k tk =
           (case map_of (map (\<lambda>e. (key_of e, e)) es) (k, tk) of
              Some e \<Rightarrow> g e | None \<Rightarrow> lookup2 (get s) k tk))"
  using assms
proof (induction es arbitrary: s)
  case Nil
  from Nil.prems(1,3) show ?case by simp
next
  case (Cons e es)
  from Cons.prems(1) obtain t where t: "f e s = Inr t" and rest: "foldE f es t = Inr s'"
    by (auto simp: bindE_Inr_iff)
  have cur: "lookup2 (get s) (fst e) (fst (snd e)) = Some (snd (snd e))"
    using Cons.prems(4) by simp
  have st: "P t \<and> (\<forall>k tk. lookup2 (get t) k tk =
                 (if (k, tk) = key_of e then g e else lookup2 (get s) k tk))"
    using Cons.prems(5)[OF _ Cons.prems(3) cur t] by simp
  have d: "distinct (map key_of es)" and ne: "key_of e \<notin> key_of ` set es"
    using Cons.prems(2) by auto
  have pres: "\<forall>e' \<in> set es. lookup2 (get t) (fst e') (fst (snd e')) = Some (snd (snd e'))"
  proof
    fix e' assume e': "e' \<in> set es"
    then have "key_of e' \<noteq> key_of e" using ne by (metis image_eqI)
    then have "(fst e', fst (snd e')) \<noteq> key_of e" by (simp add: key_of_def)
    then have "lookup2 (get t) (fst e') (fst (snd e')) = lookup2 (get s) (fst e') (fst (snd e'))"
      using st by simp
    then show "lookup2 (get t) (fst e') (fst (snd e')) = Some (snd (snd e'))"
      using Cons.prems(4) e' by simp
  qed
  have IH: "P s' \<and> (\<forall>k tk. lookup2 (get s') k tk =
           (case map_of (map (\<lambda>e. (key_of e, e)) es) (k, tk) of
              Some e \<Rightarrow> g e | None \<Rightarrow> lookup2 (get t) k tk))"
  proof (rule Cons.IH[OF rest d _ pres])
    show "P t" using st by simp
  next
    fix e' u u'
    assume "e' \<in> set es" "P u" "lookup2 (get u) (fst e') (fst (snd e')) = Some (snd (snd e'))"
      "f e' u = Inr u'"
    then show "P u' \<and> (\<forall>k tk. lookup2 (get u') k tk =
                 (if (k, tk) = key_of e' then g e' else lookup2 (get u) k tk))"
      using Cons.prems(5)[of e' u u'] by simp
  qed
  have none: "map_of (map (\<lambda>e. (key_of e, e)) es) (key_of e) = None"
    using ne by (simp add: map_of_eq_None_iff image_image)
  show ?case
  proof (intro conjI allI)
    show "P s'" using IH by simp
  next
    fix k tk
    show "lookup2 (get s') k tk =
           (case map_of (map (\<lambda>e. (key_of e, e)) (e # es)) (k, tk) of
              Some e \<Rightarrow> g e | None \<Rightarrow> lookup2 (get s) k tk)"
    proof (cases "(k, tk) = key_of e")
      case True
      then show ?thesis using IH st none by simp
    next
      case False
      then show ?thesis using IH st by (auto split: option.splits)
    qed
  qed
qed

lemma foldE_total:
  fixes get :: "'s \<Rightarrow> 'v nested"
  assumes "distinct (map key_of es)"
    and "P s"
    and "\<forall>e \<in> set es. lookup2 (get s) (fst e) (fst (snd e)) = Some (snd (snd e))"
    and ok: "\<And>e t. e \<in> set es \<Longrightarrow> P t \<Longrightarrow>
           lookup2 (get t) (fst e) (fst (snd e)) = Some (snd (snd e)) \<Longrightarrow> \<exists>t'. f e t = Inr t'"
    and step: "\<And>e t t'. e \<in> set es \<Longrightarrow> P t \<Longrightarrow>
           lookup2 (get t) (fst e) (fst (snd e)) = Some (snd (snd e)) \<Longrightarrow> f e t = Inr t' \<Longrightarrow>
           P t' \<and> (\<forall>k tk. lookup2 (get t') k tk =
                            (if (k, tk) = key_of e then g e else lookup2 (get t) k tk))"
  shows "\<exists>s'. foldE f es s = Inr s'"
  using assms
proof (induction es arbitrary: s)
  case Nil
  show ?case by simp
next
  case (Cons e es)
  have cur: "lookup2 (get s) (fst e) (fst (snd e)) = Some (snd (snd e))"
    using Cons.prems(3) by simp
  then obtain t where t: "f e s = Inr t"
    using Cons.prems(4)[of e s] Cons.prems(2) by auto
  have st: "P t \<and> (\<forall>k tk. lookup2 (get t) k tk =
                 (if (k, tk) = key_of e then g e else lookup2 (get s) k tk))"
    using Cons.prems(5)[OF _ Cons.prems(2) cur t] by simp
  have d: "distinct (map key_of es)" and ne: "key_of e \<notin> key_of ` set es"
    using Cons.prems(1) by auto
  have pres: "\<forall>e' \<in> set es. lookup2 (get t) (fst e') (fst (snd e')) = Some (snd (snd e'))"
  proof
    fix e' assume e': "e' \<in> set es"
    then have "key_of e' \<noteq> key_of e" using ne by (metis image_eqI)
    then have "(fst e', fst (snd e')) \<noteq> key_of e" by (simp add: key_of_def)
    then have "lookup2 (get t) (fst e') (fst (snd e')) = lookup2 (get s) (fst e') (fst (snd e'))"
      using st by simp
    then show "lookup2 (get t) (fst e') (fst (snd e')) = Some (snd (snd e'))"
      using Cons.prems(3) e' by simp
  qed
  have "\<exists>s'. foldE f es t = Inr s'"
  proof (rule Cons.IH[OF d _ pres])
    show "P t" using st by simp
  next
    fix e' u
    assume "e' \<in> set es" "P u" "lookup2 (get u) (fst e') (fst (snd e')) = Some (snd (snd e'))"
    then show "\<exists>t'. f e' u = Inr t'"
      using Cons.prems(4)[of e' u] by simp
  next
    fix e' u u'
    assume "e' \<in> set es" "P u" "lookup2 (get u) (fst e') (fst (snd e')) = Some (snd (snd e'))"
      "f e' u = Inr u'"
    then show "P u' \<and> (\<forall>k tk. lookup2 (get u') k tk =
                 (if (k, tk) = key_of e' then g e' else lookup2 (get u) k tk))"
      using Cons.prems(5)[of e' u u'] by simp
  qed
  then show ?case using t by simp
qed

lemma map_of_entries:
  assumes "wf_nested m"
  shows "map_of (map (\<lambda>e. (key_of e, e)) (entries m)) (k, tk) =
           map_option (\<lambda>x. (k, tk, x)) (lookup2 m k tk)"
proof -
  let ?al = "map (\<lambda>e. (key_of e, e)) (entries m)"
  have d: "distinct (map fst ?al)"
    using distinct_entries[OF assms] by (simp add: comp_def)
  show ?thesis
  proof (cases "lookup2 m k tk")
    case None
    then have "\<And>x. (k, tk, x) \<notin> set (entries m)"
      using entries_iff[OF assms] by simp
    then have "(k, tk) \<notin> fst ` set ?al"
      by (auto simp: key_of_def)
    then show ?thesis using None by (simp add: map_of_eq_None_iff)
  next
    case (Some x)
    then have "(k, tk, x) \<in> set (entries m)"
      using entries_iff[OF assms] by simp
    then have "((k, tk), (k, tk, x)) \<in> set ?al" by force
    then show ?thesis using Some d by simp
  qed
qed

lemma Each_lookup:
  fixes get :: "'s \<Rightarrow> 'v nested"
  assumes "Each m f s = Inr s'"
    and "wf_nested m"
    and "P s"
    and "get s = m"
    and step: "\<And>k tk x t t'. lookup2 m k tk = Some x \<Longrightarrow> P t \<Longrightarrow>
           lookup2 (get t) k tk = Some x \<Longrightarrow> f k tk x t = Inr t' \<Longrightarrow>
           P t' \<and> (\<forall>k' tk'. lookup2 (get t') k' tk' =
                            (if k' = k \<and> tk' = tk then g k tk x else lookup2 (get t) k' tk'))"
  shows "P s' \<and> (\<forall>k tk. lookup2 (get s') k tk =
           (case lookup2 m k tk of None \<Rightarrow> None | Some x \<Rightarrow> g k tk x))"
proof -
  let ?f = "\<lambda>(key, tagsKey, x). f key tagsKey x"
  let ?g = "\<lambda>(key, tagsKey, x). g key tagsKey x"
  have run: "foldE ?f (entries m) s = Inr s'"
    using assms(1) by (simp add: Each_def)
  have pres: "\<forall>e \<in> set (entries m). lookup2 (get s) (fst e) (fst (snd e)) = Some (snd (snd e))"
  proof
    fix e assume e: "e \<in> set (entries m)"
    obtain k tk x where [simp]: "e = (k, tk, x)" by (cases e)
    have "lookup2 m k tk = Some x" using e entries_iff[OF assms(2)] by simp
    then show "lookup2 (get s) (fst e) (fst (snd e)) = Some (snd (snd e))"
      using assms(4) by simp
  qed
  have st: "\<And>e t t'. e \<in> set (entries m) \<Longrightarrow> P t \<Longrightarrow>
           lookup2 (get t) (fst e) (fst (snd e)) = Some (snd (snd e)) \<Longrightarrow> ?f e t = Inr t' \<Longrightarrow>
           P t' \<and> (\<forall>k tk. lookup2 (get t') k tk =
                            (if (k, tk) = key_of e then ?g e else lookup2 (get t) k tk))"
  proof -
    fix e t t' assume e: "e \<in> set (entries m)" and Pt: "P t"
      and c: "lookup2 (get t) (fst e) (fst (snd e)) = Some (snd (snd e))" and r: "?f e t = Inr t'"
    obtain k tk x where [simp]: "e = (k, tk, x)" by (cases e)
    have l: "lookup2 m k tk = Some x" using e entries_iff[OF assms(2)] by simp
    have c': "lookup2 (get t) k tk = Some x" using c by simp
    from step[OF l Pt c'] r
    show "P t' \<and> (\<forall>k tk. lookup2 (get t') k tk =
                            (if (k, tk) = key_of e then ?g e else lookup2 (get t) k tk))"
      by simp
  qed
  have res: "P s' \<and> (\<forall>k tk. lookup2 (get s') k tk =
           (case map_of (map (\<lambda>e. (key_of e, e)) (entries m)) (k, tk) of
              Some e \<Rightarrow> ?g e | None \<Rightarrow> lookup2 (get s) k tk))"
    by (rule foldE_lookup[where P = P and get = get and g = ?g,
          OF run distinct_entries[OF assms(2)] assms(3) pres st])
  show ?thesis
  proof (intro conjI allI)
    show "P s'" using res by simp
  next
    fix k tk
    show "lookup2 (get s') k tk =
           (case lookup2 m k tk of None \<Rightarrow> None | Some x \<Rightarrow> g k tk x)"
      using res map_of_entries[OF assms(2), of k tk] assms(4)
      by (cases "lookup2 m k tk") simp_all
  qed
qed

lemma Each_total:
  fixes get :: "'s \<Rightarrow> 'v nested"
  assumes "wf_nested m"
    and "P s"
    and "get s = m"
    and ok: "\<And>k tk x t. lookup2 m k tk = Some x \<Longrightarrow> P t \<Longrightarrow> lookup2 (get t) k tk = Some x \<Longrightarrow>
           \<exists>t'. f k tk x t = Inr t'"
    and step: "\<And>k tk x t t'. lookup2 m k tk = Some x \<Longrightarrow> P t \<Longrightarrow>
           lookup2 (get t) k tk = Some x \<Longrightarrow> f k tk x t = Inr t' \<Longrightarrow>
           P t' \<and> (\<forall>k' tk'. lookup2 (get t') k' tk' =
                            (if k' = k \<and> tk' = tk then g k tk x else lookup2 (get t) k' tk'))"
  shows "\<exists>s'. Each m f s = Inr s'"
proof -
  let ?f = "\<lambda>(key, tagsKey, x). f key tagsKey x"
  let ?g = "\<lambda>(key, tagsKey, x). g key tagsKey x"
  have pres: "\<forall>e \<in> set (entries m). lookup2 (get s) (fst e) (fst (snd e)) = Some (snd (snd e))"
  proof
    fix e assume e: "e \<in> set (entries m)"
    obtain k tk x where [simp]: "e = (k, tk, x)" by (cases e)
    have "lookup2 m k tk = Some x" using e entries_iff[OF assms(1)] by simp
    then show "lookup2 (get s) (fst e) (fst (snd e)) = Some (snd (snd e))"
      using assms(3) by simp
  qed
  have ok': "\<And>e t. e \<in> set (entries m) \<Longrightarrow> P t \<Longrightarrow>
      lookup2 (get t) (fst e) (fst (snd e)) = Some (snd (snd e)) \<Longrightarrow> \<exists>t'. ?f e t = Inr t'"
  proof -
    fix e t assume e: "e \<in> set (entries m)" and Pt: "P t"
      and c: "lookup2 (get t) (fst e) (fst (snd e)) = Some (snd (snd e))"
    obtain k tk x where [simp]: "e = (k, tk, x)" by (cases e)
    have l: "lookup2 m k tk = Some x" using e entries_iff[OF assms(1)] by simp
    have c': "lookup2 (get t) k tk = Some x" using c by simp
    from ok[OF l Pt c'] show "\<exists>t'. ?f e t = Inr t'" by simp
  qed
  have st: "\<And>e t t'. e \<in> set (entries m) \<Longrightarrow> P t \<Longrightarrow>
           lookup2 (get t) (fst e) (fst (snd e)) = Some (snd (snd e)) \<Longrightarrow> ?f e t = Inr t' \<Longrightarrow>
           P t' \<and> (\<forall>k tk. lookup2 (get t') k tk =
                            (if (k, tk) = key_of e then ?g e else lookup2 (get t) k tk))"
  proof -
    fix e t t' assume e: "e \<in> set (entries m)" and Pt: "P t"
      and c: "lookup2 (get t) (fst e) (fst (snd e)) = Some (snd (snd e))" and r: "?f e t = Inr t'"
    obtain k tk x where [simp]: "e = (k, tk, x)" by (cases e)
    have l: "lookup2 m k tk = Some x" using e entries_iff[OF assms(1)] by simp
    have c': "lookup2 (get t) k tk = Some x" using c by simp
    from step[OF l Pt c'] r
    show "P t' \<and> (\<forall>k tk. lookup2 (get t') k tk =
                            (if (k, tk) = key_of e then ?g e else lookup2 (get t) k tk))"
      by simp
  qed
  have "\<exists>s'. foldE ?f (entries m) s = Inr s'"
    by (rule foldE_total[where P = P and get = get and g = ?g,
          OF distinct_entries[OF assms(1)] assms(2) pres ok' st])
  then show ?thesis by (simp add: Each_def)
qed

lemma Each_result:
  fixes get :: "'s \<Rightarrow> 'v nested"
  assumes wf: "wf_nested m"
    and P: "P s"
    and get: "get s = m"
    and ok: "\<And>k tk x t. lookup2 m k tk = Some x \<Longrightarrow> P t \<Longrightarrow> lookup2 (get t) k tk = Some x \<Longrightarrow>
           \<exists>t'. f k tk x t = Inr t'"
    and step: "\<And>k tk x t t'. lookup2 m k tk = Some x \<Longrightarrow> P t \<Longrightarrow>
           lookup2 (get t) k tk = Some x \<Longrightarrow> f k tk x t = Inr t' \<Longrightarrow>
           P t' \<and> (\<forall>k' tk'. lookup2 (get t') k' tk' =
                            (if k' = k \<and> tk' = tk then g k tk x else lookup2 (get t) k' tk'))"
  shows "\<exists>s'. Each m f s = Inr s' \<and> P s' \<and>
           (\<forall>k tk. lookup2 (get s') k tk =
              (case lookup2 m k tk of None \<Rightarrow> None | Some x \<Rightarrow> g k tk x))"
proof -
  have "\<exists>s'. Each m f s = Inr s'"
  proof (rule Each_total[where P = P and get = get and g = g and f = f and m = m])
    show "wf_nested m" by (rule wf)
  next
    show "P s" by (rule P)
  next
    show "get s = m" by (rule get)
  next
    fix k tk x t
    assume "lookup2 m k tk = Some x" "P t" "lookup2 (get t) k tk = Some x"
    then show "\<exists>t'. f k tk x t = Inr t'" by (rule ok)
  next
    fix k tk x t t'
    assume "lookup2 m k tk = Some x" "P t" "lookup2 (get t) k tk = Some x" "f k tk x t = Inr t'"
    then show "P t' \<and> (\<forall>k' tk'. lookup2 (get t') k' tk' =
                 (if k' = k \<and> tk' = tk then g k tk x else lookup2 (get t) k' tk'))"
      by (rule step)
  qed
  then obtain s' where run: "Each m f s = Inr s'" by blast
  have "P s' \<and> (\<forall>k tk. lookup2 (get s') k tk =
           (case lookup2 m k tk of None \<Rightarrow> None | Some x \<Rightarrow> g k tk x))"
  proof (rule Each_lookup[where P = P and get = get and g = g and f = f and m = m])
    show "Each m f s = Inr s'" by (rule run)
  next
    show "wf_nested m" by (rule wf)
  next
    show "P s" by (rule P)
  next
    show "get s = m" by (rule get)
  next
    fix k tk x t t'
    assume "lookup2 m k tk = Some x" "P t" "lookup2 (get t) k tk = Some x" "f k tk x t = Inr t'"
    then show "P t' \<and> (\<forall>k' tk'. lookup2 (get t') k' tk' =
                 (if k' = k \<and> tk' = tk then g k tk x else lookup2 (get t) k' tk'))"
      by (rule step)
  qed
  then show ?thesis using run by blast
qed

lemma set_update_subset: "set (AList.update k v al) \<subseteq> insert (k, v) (set al)"
  by (induction al) auto

lemma set_delete_subset: "set (AList.delete k al) \<subseteq> set al"
  by (induction al) auto

lemma wf_nested_update:
  assumes "wf_nested m" "distinct (map fst v)"
  shows "wf_nested (AList.update key v m)"
proof -
  have "distinct (map fst (AList.update key v m))"
    using assms(1) by (simp add: wf_nested_def distinct_update)
  moreover have "\<forall>(k, w) \<in> set (AList.update key v m). distinct (map fst w)"
  proof (clarify)
    fix k w assume "(k, w) \<in> set (AList.update key v m)"
    then have "(k, w) = (key, v) \<or> (k, w) \<in> set m"
      using set_update_subset[of key v m] by blast
    then show "distinct (map fst w)"
      using assms by (auto simp: wf_nested_def)
  qed
  ultimately show ?thesis by (simp add: wf_nested_def)
qed

lemma wf_nested_delete:
  assumes "wf_nested m"
  shows "wf_nested (AList.delete key m)"
proof -
  have "distinct (map fst (AList.delete key m))"
    using assms by (simp add: wf_nested_def distinct_delete)
  moreover have "\<forall>(k, w) \<in> set (AList.delete key m). distinct (map fst w)"
  proof (clarify)
    fix k w assume "(k, w) \<in> set (AList.delete key m)"
    then have "(k, w) \<in> set m"
      using set_delete_subset[of key m] by blast
    then show "distinct (map fst w)"
      using assms by (auto simp: wf_nested_def)
  qed
  ultimately show ?thesis by (simp add: wf_nested_def)
qed

lemma wf_nested_inner:
  assumes "wf_nested m" "map_of m key = Some v"
  shows "distinct (map fst v)"
proof -
  have "(key, v) \<in> set m" using assms(2) by (rule map_of_SomeD)
  then show ?thesis using assms(1) by (auto simp: wf_nested_def)
qed

lemma wf_nested_store2:
  assumes "wf_nested m" "distinct (map fst v)"
  shows "wf_nested (store2 m key v tagsKey x)"
  unfolding store2_def using assms by (simp add: wf_nested_update distinct_update)

lemma wf_nested_assign2:
  assumes "wf_nested m" "assign2 m key tagsKey x = Inr m'"
  shows "wf_nested m'"
proof (cases "map_of m key")
  case None
  then show ?thesis using assms(2) by (simp add: assign2_def)
next
  case (Some v)
  then have "m' = store2 m key v tagsKey x" using assms(2) by (simp add: assign2_def)
  then show ?thesis using wf_nested_store2[OF assms(1) wf_nested_inner[OF assms(1) Some]] by simp
qed

lemma wf_nested_delete2:
  assumes "wf_nested m"
  shows "wf_nested (delete2 m key tagsKey)"
proof (cases "map_of m key")
  case None
  then show ?thesis using wf_nested_delete[OF assms] by (simp add: delete2_def)
next
  case (Some v)
  have "distinct (map fst (AList.delete tagsKey v))"
    using wf_nested_inner[OF assms Some] by (simp add: distinct_delete)
  then show ?thesis
    using Some wf_nested_delete[OF assms] wf_nested_update[OF assms]
    by (simp add: delete2_def Let_def)
qed

lemma wf_nested_Nil [simp]: "wf_nested []"
  by (simp add: wf_nested_def)

lemma Each_wf:
  fixes get :: "'s \<Rightarrow> 'v nested"
  assumes "Each m f s = Inr s'" and "Q s"
    and "\<And>k tk x t t'. Q t \<Longrightarrow> f k tk x t = Inr t' \<Longrightarrow> Q t'"
  shows "Q s'"
proof -
  have "\<And>s. foldE (\<lambda>(key, tagsKey, x). f key tagsKey x) es s = Inr s' \<Longrightarrow> Q s \<Longrightarrow> Q s'" for es
  proof (induction es)
    case Nil
    then show ?case by simp
  next
    case (Cons e es)
    obtain k tk x where e: "e = (k, tk, x)" by (cases e)
    from Cons.prems(1) obtain t where t: "f k tk x s = Inr t"
      and rest: "foldE (\<lambda>(key, tagsKey, x). f key tagsKey x) es t = Inr s'"
      by (auto simp: e bindE_Inr_iff)
    show ?case using Cons.IH[OF rest] assms(3)[OF Cons.prems(2) t] by simp
  qed
  then show ?thesis using assms(1,2) by (simp add: Each_def)
qed

lemma wf_state_example: "wf_state example_state"
  by (simp add: wf_state_def wf_nested_def example_state_def NewMetricAggregator_def)

section \<open>Lemmas on \<^verbatim>\<open>Reset\<close>\<close>

lemma reset_counter_step:
  assumes "t = b\<lparr>Counters := c\<rparr>" and "reset_counter now k tk x t = Inr t'"
  shows "(\<exists>c'. t' = b\<lparr>Counters := c'\<rparr>) \<and>
         (\<forall>k' tk'. lookup2 (Counters t') k' tk' =
            (if k' = k \<and> tk' = tk then reset_counter_result b now x else lookup2 (Counters t) k' tk'))"
proof (cases "isExpired b now (Counter.Timestamp x)")
  case True
  then have "isExpired t now (Counter.Timestamp x)" using assms(1) by (simp add: isExpired_def)
  then have "t' = b\<lparr>Counters := delete2 c k tk\<rparr>"
    using assms by (simp add: reset_counter_def)
  then show ?thesis using True assms(1)
    by (auto simp: lookup2_delete2 reset_counter_result_def)
next
  case False
  then have "\<not> isExpired t now (Counter.Timestamp x)" using assms(1) by (simp add: isExpired_def)
  then obtain c' where c': "assign2 c k tk (Counter_lit (Counter.Interval x)) = Inr c'"
    and t': "t' = b\<lparr>Counters := c'\<rparr>"
    using assms by (auto simp: reset_counter_def bindE_Inr_iff)
  show ?thesis using False assms(1) t' assign2_Inr[OF c']
    by (auto simp: reset_counter_result_def)
qed

lemma reset_counter_ok:
  assumes "lookup2 (Counters t) k tk \<noteq> None"
  shows "\<exists>t'. reset_counter now k tk x t = Inr t'"
proof -
  obtain c' where "assign2 (Counters t) k tk (Counter_lit (Counter.Interval x)) = Inr c'"
    using assign2_total[OF assms] by blast
  then show ?thesis by (simp add: reset_counter_def)
qed

lemma reset_counter_wf:
  assumes "wf_nested (Counters t)" "reset_counter now k tk x t = Inr t'"
  shows "wf_nested (Counters t')"
  using assms
  by (auto simp: reset_counter_def bindE_Inr_iff wf_nested_delete2 wf_nested_assign2
      split: if_splits)

lemma reset_timer_step:
  assumes "t = b\<lparr>Timers := c\<rparr>" and "reset_timer now k tk x t = Inr t'"
  shows "(\<exists>c'. t' = b\<lparr>Timers := c'\<rparr>) \<and>
         (\<forall>k' tk'. lookup2 (Timers t') k' tk' =
            (if k' = k \<and> tk' = tk then reset_timer_result b now x else lookup2 (Timers t) k' tk'))"
proof (cases "isExpired b now (Timer.Timestamp x)")
  case True
  then have "isExpired t now (Timer.Timestamp x)" using assms(1) by (simp add: isExpired_def)
  then have "t' = b\<lparr>Timers := delete2 c k tk\<rparr>"
    using assms by (simp add: reset_timer_def)
  then show ?thesis using True assms(1)
    by (auto simp: lookup2_delete2 reset_timer_result_def)
next
  case False
  then have "\<not> isExpired t now (Timer.Timestamp x)" using assms(1) by (simp add: isExpired_def)
  then obtain c' where c': "assign2 c k tk (Timer_lit (Timer.Interval x)) = Inr c'"
    and t': "t' = b\<lparr>Timers := c'\<rparr>"
    using assms by (auto simp: reset_timer_def bindE_Inr_iff)
  show ?thesis using False assms(1) t' assign2_Inr[OF c']
    by (auto simp: reset_timer_result_def)
qed

lemma reset_timer_ok:
  assumes "lookup2 (Timers t) k tk \<noteq> None"
  shows "\<exists>t'. reset_timer now k tk x t = Inr t'"
proof -
  obtain c' where "assign2 (Timers t) k tk (Timer_lit (Timer.Interval x)) = Inr c'"
    using assign2_total[OF assms] by blast
  then show ?thesis by (simp add: reset_timer_def)
qed

lemma reset_timer_wf:
  assumes "wf_nested (Timers t)" "reset_timer now k tk x t = Inr t'"
  shows "wf_nested (Timers t')"
  using assms
  by (auto simp: reset_timer_def bindE_Inr_iff wf_nested_delete2 wf_nested_assign2
      split: if_splits)

lemma reset_set_step:
  assumes "t = b\<lparr>Sets := c\<rparr>" and "reset_set now k tk x t = Inr t'"
  shows "(\<exists>c'. t' = b\<lparr>Sets := c'\<rparr>) \<and>
         (\<forall>k' tk'. lookup2 (Sets t') k' tk' =
            (if k' = k \<and> tk' = tk then reset_set_result b now x else lookup2 (Sets t) k' tk'))"
proof (cases "isExpired b now (Set.Timestamp x)")
  case True
  then have "isExpired t now (Set.Timestamp x)" using assms(1) by (simp add: isExpired_def)
  then have "t' = b\<lparr>Sets := delete2 c k tk\<rparr>"
    using assms by (simp add: reset_set_def)
  then show ?thesis using True assms(1)
    by (auto simp: lookup2_delete2 reset_set_result_def)
next
  case False
  then have "\<not> isExpired t now (Set.Timestamp x)" using assms(1) by (simp add: isExpired_def)
  then obtain c' where c': "assign2 c k tk (Set_lit (Set.Interval x) []) = Inr c'"
    and t': "t' = b\<lparr>Sets := c'\<rparr>"
    using assms by (auto simp: reset_set_def bindE_Inr_iff)
  show ?thesis using False assms(1) t' assign2_Inr[OF c']
    by (auto simp: reset_set_result_def)
qed

lemma reset_set_ok:
  assumes "lookup2 (Sets t) k tk \<noteq> None"
  shows "\<exists>t'. reset_set now k tk x t = Inr t'"
proof -
  obtain c' where "assign2 (Sets t) k tk (Set_lit (Set.Interval x) []) = Inr c'"
    using assign2_total[OF assms] by blast
  then show ?thesis by (simp add: reset_set_def)
qed

lemma reset_set_wf:
  assumes "wf_nested (Sets t)" "reset_set now k tk x t = Inr t'"
  shows "wf_nested (Sets t')"
  using assms
  by (auto simp: reset_set_def bindE_Inr_iff wf_nested_delete2 wf_nested_assign2
      split: if_splits)

lemma reset_gauge_step:
  assumes "t = b\<lparr>Gauges := c\<rparr>" and "reset_gauge now k tk x t = Inr t'"
    and "lookup2 (Gauges t) k tk = Some x"
  shows "(\<exists>c'. t' = b\<lparr>Gauges := c'\<rparr>) \<and>
         (\<forall>k' tk'. lookup2 (Gauges t') k' tk' =
            (if k' = k \<and> tk' = tk then reset_gauge_result b now x else lookup2 (Gauges t) k' tk'))"
proof (cases "isExpired b now (Gauge.Timestamp x)")
  case True
  then have "isExpired t now (Gauge.Timestamp x)" using assms(1) by (simp add: isExpired_def)
  then have "t' = b\<lparr>Gauges := delete2 c k tk\<rparr>"
    using assms by (simp add: reset_gauge_def)
  then show ?thesis using True assms(1)
    by (auto simp: lookup2_delete2 reset_gauge_result_def)
next
  case False
  then have "\<not> isExpired t now (Gauge.Timestamp x)" using assms(1) by (simp add: isExpired_def)
  then have t': "t' = t"
    using assms by (simp add: reset_gauge_def)
  show ?thesis using False assms(1,3) t'
    by (auto simp: reset_gauge_result_def)
qed

lemma reset_gauge_ok: "\<exists>t'. reset_gauge now k tk x t = Inr t'"
  by (simp add: reset_gauge_def)

lemma reset_gauge_wf:
  assumes "wf_nested (Gauges t)" "reset_gauge now k tk x t = Inr t'"
  shows "wf_nested (Gauges t')"
  using assms
  by (auto simp: reset_gauge_def wf_nested_delete2 split: if_splits)

lemma Reset_Counters:
  assumes "wf_nested (Counters b)"
  shows "\<exists>c'. Each (Counters b) (reset_counter now) b = Inr (b\<lparr>Counters := c'\<rparr>) \<and>
           wf_nested c' \<and>
           (\<forall>k tk. lookup2 c' k tk =
              (case lookup2 (Counters b) k tk of None \<Rightarrow> None
               | Some x \<Rightarrow> reset_counter_result b now x))"
proof -
  let ?P = "\<lambda>t. \<exists>c. t = b\<lparr>Counters := c\<rparr>"
  have "\<exists>s'. Each (Counters b) (reset_counter now) b = Inr s' \<and> ?P s' \<and>
           (\<forall>k tk. lookup2 (Counters s') k tk =
              (case lookup2 (Counters b) k tk of None \<Rightarrow> None
               | Some x \<Rightarrow> reset_counter_result b now x))"
  proof (rule Each_result[where P = ?P and get = "Counters :: MetricAggregator \<Rightarrow> _"
        and g = "\<lambda>k tk x. reset_counter_result b now x"])
    show "wf_nested (Counters b)" by (rule assms)
  next
    show "?P b" by (rule exI[of _ "Counters b"]) simp
  next
    show "Counters b = Counters b" by simp
  next
    fix k tk x and t :: MetricAggregator
    assume "lookup2 (Counters t) k tk = Some x"
    then show "\<exists>t'. reset_counter now k tk x t = Inr t'" by (simp add: reset_counter_ok)
  next
    fix k tk x and t t' :: MetricAggregator
    assume "?P t" "lookup2 (Counters t) k tk = Some x" "reset_counter now k tk x t = Inr t'"
    then show "?P t' \<and> (\<forall>k' tk'. lookup2 (Counters t') k' tk' =
         (if k' = k \<and> tk' = tk then reset_counter_result b now x else lookup2 (Counters t) k' tk'))"
      using reset_counter_step by blast
  qed
  then obtain s' c' where run: "Each (Counters b) (reset_counter now) b = Inr s'"
    and s': "s' = b\<lparr>Counters := c'\<rparr>"
    and res: "\<forall>k tk. lookup2 (Counters s') k tk =
              (case lookup2 (Counters b) k tk of None \<Rightarrow> None
               | Some x \<Rightarrow> reset_counter_result b now x)"
    by blast
  have "wf_nested (Counters s')"
    by (rule Each_wf[where Q = "\<lambda>t. wf_nested (Counters t)", OF run assms reset_counter_wf])
  then show ?thesis using run s' res by auto
qed

lemma Reset_Timers:
  assumes "wf_nested (Timers b)"
  shows "\<exists>c'. Each (Timers b) (reset_timer now) b = Inr (b\<lparr>Timers := c'\<rparr>) \<and>
           wf_nested c' \<and>
           (\<forall>k tk. lookup2 c' k tk =
              (case lookup2 (Timers b) k tk of None \<Rightarrow> None
               | Some x \<Rightarrow> reset_timer_result b now x))"
proof -
  let ?P = "\<lambda>t. \<exists>c. t = b\<lparr>Timers := c\<rparr>"
  have "\<exists>s'. Each (Timers b) (reset_timer now) b = Inr s' \<and> ?P s' \<and>
           (\<forall>k tk. lookup2 (Timers s') k tk =
              (case lookup2 (Timers b) k tk of None \<Rightarrow> None
               | Some x \<Rightarrow> reset_timer_result b now x))"
  proof (rule Each_result[where P = ?P and get = "Timers :: MetricAggregator \<Rightarrow> _"
        and g = "\<lambda>k tk x. reset_timer_result b now x"])
    show "wf_nested (Timers b)" by (rule assms)
  next
    show "?P b" by (rule exI[of _ "Timers b"]) simp
  next
    show "Timers b = Timers b" by simp
  next
    fix k tk x and t :: MetricAggregator
    assume "lookup2 (Timers t) k tk = Some x"
    then show "\<exists>t'. reset_timer now k tk x t = Inr t'" by (simp add: reset_timer_ok)
  next
    fix k tk x and t t' :: MetricAggregator
    assume "?P t" "lookup2 (Timers t) k tk = Some x" "reset_timer now k tk x t = Inr t'"
    then show "?P t' \<and> (\<forall>k' tk'. lookup2 (Timers t') k' tk' =
         (if k' = k \<and> tk' = tk then reset_timer_result b now x else lookup2 (Timers t) k' tk'))"
      using reset_timer_step by blast
  qed
  then obtain s' c' where run: "Each (Timers b) (reset_timer now) b = Inr s'"
    and s': "s' = b\<lparr>Timers := c'\<rparr>"
    and res: "\<forall>k tk. lookup2 (Timers s') k tk =
              (case lookup2 (Timers b) k tk of None \<Rightarrow> None
               | Some x \<Rightarrow> reset_timer_result b now x)"
    by blast
  have "wf_nested (Timers s')"
    by (rule Each_wf[where Q = "\<lambda>t. wf_nested (Timers t)", OF run assms reset_timer_wf])
  then show ?thesis using run s' res by auto
qed

lemma Reset_Sets:
  assumes "wf_nested (Sets b)"
  shows "\<exists>c'. Each (Sets b) (reset_set now) b = Inr (b\<lparr>Sets := c'\<rparr>) \<and>
           wf_nested c' \<and>
           (\<forall>k tk. lookup2 c' k tk =
              (case lookup2 (Sets b) k tk of None \<Rightarrow> None
               | Some x \<Rightarrow> reset_set_result b now x))"
proof -
  let ?P = "\<lambda>t. \<exists>c. t = b\<lparr>Sets := c\<rparr>"
  have "\<exists>s'. Each (Sets b) (reset_set now) b = Inr s' \<and> ?P s' \<and>
           (\<forall>k tk. lookup2 (Sets s') k tk =
              (case lookup2 (Sets b) k tk of None \<Rightarrow> None
               | Some x \<Rightarrow> reset_set_result b now x))"
  proof (rule Each_result[where P = ?P and get = "Sets :: MetricAggregator \<Rightarrow> _"
        and g = "\<lambda>k tk x. reset_set_result b now x"])
    show "wf_nested (Sets b)" by (rule assms)
  next
    show "?P b" by (rule exI[of _ "Sets b"]) simp
  next
    show "Sets b = Sets b" by simp
  next
    fix k tk x and t :: MetricAggregator
    assume "lookup2 (Sets t) k tk = Some x"
    then show "\<exists>t'. reset_set now k tk x t = Inr t'" by (simp add: reset_set_ok)
  next
    fix k tk x and t t' :: MetricAggregator
    assume "?P t" "lookup2 (Sets t) k tk = Some x" "reset_set now k tk x t = Inr t'"
    then show "?P t' \<and> (\<forall>k' tk'. lookup2 (Sets t') k' tk' =
         (if k' = k \<and> tk' = tk then reset_set_result b now x else lookup2 (Sets t) k' tk'))"
      using reset_set_step by blast
  qed
  then obtain s' c' where run: "Each (Sets b) (reset_set now) b = Inr s'"
    and s': "s' = b\<lparr>Sets := c'\<rparr>"
    and res: "\<forall>k tk. lookup2 (Sets s') k tk =
              (case lookup2 (Sets b) k tk of None \<Rightarrow> None
               | Some x \<Rightarrow> reset_set_result b now x)"
    by blast
  have "wf_nested (Sets s')"
    by (rule Each_wf[where Q = "\<lambda>t. wf_nested (Sets t)", OF run assms reset_set_wf])
  then show ?thesis using run s' res by auto
qed

lemma Reset_Gauges:
  assumes "wf_nested (Gauges b)"
  shows "\<exists>c'. Each (Gauges b) (reset_gauge now) b = Inr (b\<lparr>Gauges := c'\<rparr>) \<and>
           wf_nested c' \<and>
           (\<forall>k tk. lookup2 c' k tk =
              (case lookup2 (Gauges b) k tk of None \<Rightarrow> None
               | Some x \<Rightarrow> reset_gauge_result b now x))"
proof -
  let ?P = "\<lambda>t. \<exists>c. t = b\<lparr>Gauges := c\<rparr>"
  have "\<exists>s'. Each (Gauges b) (reset_gauge now) b = Inr s' \<and> ?P s' \<and>
           (\<forall>k tk. lookup2 (Gauges s') k tk =
              (case lookup2 (Gauges b) k tk of None \<Rightarrow> None
               | Some x \<Rightarrow> reset_gauge_result b now x))"
  proof (rule Each_result[where P = ?P and get = "Gauges :: MetricAggregator \<Rightarrow> _"
        and g = "\<lambda>k tk x. reset_gauge_result b now x"])
    show "wf_nested (Gauges b)" by (rule assms)
  next
    show "?P b" by (rule exI[of _ "Gauges b"]) simp
  next
    show "Gauges b = Gauges b" by simp
  next
    fix k tk x and t :: MetricAggregator
    assume "lookup2 (Gauges t) k tk = Some x"
    then show "\<exists>t'. reset_gauge now k tk x t = Inr t'" by (simp add: reset_gauge_ok)
  next
    fix k tk x and t t' :: MetricAggregator
    assume "?P t" "lookup2 (Gauges t) k tk = Some x" "reset_gauge now k tk x t = Inr t'"
    then show "?P t' \<and> (\<forall>k' tk'. lookup2 (Gauges t') k' tk' =
         (if k' = k \<and> tk' = tk then reset_gauge_result b now x else lookup2 (Gauges t) k' tk'))"
      using reset_gauge_step by blast
  qed
  then obtain s' c' where run: "Each (Gauges b) (reset_gauge now) b = Inr s'"
    and s': "s' = b\<lparr>Gauges := c'\<rparr>"
    and res: "\<forall>k tk. lookup2 (Gauges s') k tk =
              (case lookup2 (Gauges b) k tk of None \<Rightarrow> None
               | Some x \<Rightarrow> reset_gauge_result b now x)"
    by blast
  have "wf_nested (Gauges s')"
    by (rule Each_wf[where Q = "\<lambda>t. wf_nested (Gauges t)", OF run assms reset_gauge_wf])
  then show ?thesis using run s' res by auto
qed


lemma reset_result_cong:
  assumes "ExpiryInterval b = ExpiryInterval a"
  shows "reset_counter_result b now = reset_counter_result a now"
    and "reset_timer_result b now = reset_timer_result a now"
    and "reset_set_result b now = reset_set_result a now"
    and "reset_gauge_result b now = reset_gauge_result a now"
  using assms
  by (simp_all add: fun_eq_iff reset_counter_result_def reset_timer_result_def
      reset_set_result_def reset_gauge_result_def isExpired_def)

lemma Reset_result:
  assumes "wf_state a"
  shows "\<exists>cs ts ss gs.
     Reset a now = Inr (a\<lparr>MetricMap.NumStats := 0, Counters := cs, Timers := ts, Sets := ss,
                           Gauges := gs\<rparr>) \<and>
     wf_nested cs \<and> wf_nested ts \<and> wf_nested ss \<and> wf_nested gs \<and>
     (\<forall>k tk. lookup2 cs k tk =
        (case lookup2 (Counters a) k tk of None \<Rightarrow> None | Some x \<Rightarrow> reset_counter_result a now x)) \<and>
     (\<forall>k tk. lookup2 ts k tk =
        (case lookup2 (Timers a) k tk of None \<Rightarrow> None | Some x \<Rightarrow> reset_timer_result a now x)) \<and>
     (\<forall>k tk. lookup2 ss k tk =
        (case lookup2 (Sets a) k tk of None \<Rightarrow> None | Some x \<Rightarrow> reset_set_result a now x)) \<and>
     (\<forall>k tk. lookup2 gs k tk =
        (case lookup2 (Gauges a) k tk of None \<Rightarrow> None | Some x \<Rightarrow> reset_gauge_result a now x))"
proof -
  let ?a0 = "a\<lparr>MetricMap.NumStats := 0\<rparr>"
  have wf: "wf_nested (Counters a)" "wf_nested (Timers a)" "wf_nested (Sets a)"
    "wf_nested (Gauges a)"
    using assms by (simp_all add: wf_state_def)
  obtain cs where 1: "Each (Counters ?a0) (reset_counter now) ?a0 = Inr (?a0\<lparr>Counters := cs\<rparr>)"
    and wcs: "wf_nested cs"
    and lcs: "\<forall>k tk. lookup2 cs k tk =
        (case lookup2 (Counters ?a0) k tk of None \<Rightarrow> None
         | Some x \<Rightarrow> reset_counter_result ?a0 now x)"
    using Reset_Counters[of ?a0 now] wf(1) by auto
  let ?a1 = "?a0\<lparr>Counters := cs\<rparr>"
  obtain ts where 2: "Each (Timers ?a1) (reset_timer now) ?a1 = Inr (?a1\<lparr>Timers := ts\<rparr>)"
    and wts: "wf_nested ts"
    and lts: "\<forall>k tk. lookup2 ts k tk =
        (case lookup2 (Timers ?a1) k tk of None \<Rightarrow> None
         | Some x \<Rightarrow> reset_timer_result ?a1 now x)"
    using Reset_Timers[of ?a1 now] wf(2) by auto
  let ?a2 = "?a1\<lparr>Timers := ts\<rparr>"
  obtain ss where 3: "Each (Sets ?a2) (reset_set now) ?a2 = Inr (?a2\<lparr>Sets := ss\<rparr>)"
    and wss: "wf_nested ss"
    and lss: "\<forall>k tk. lookup2 ss k tk =
        (case lookup2 (Sets ?a2) k tk of None \<Rightarrow> None
         | Some x \<Rightarrow> reset_set_result ?a2 now x)"
    using Reset_Sets[of ?a2 now] wf(3) by auto
  let ?a3 = "?a2\<lparr>Sets := ss\<rparr>"
  obtain gs where 4: "Each (Gauges ?a3) (reset_gauge now) ?a3 = Inr (?a3\<lparr>Gauges := gs\<rparr>)"
    and wgs: "wf_nested gs"
    and lgs: "\<forall>k tk. lookup2 gs k tk =
        (case lookup2 (Gauges ?a3) k tk of None \<Rightarrow> None
         | Some x \<Rightarrow> reset_gauge_result ?a3 now x)"
    using Reset_Gauges[of ?a3 now] wf(4) by auto
  have run: "Reset a now = Inr (?a3\<lparr>Gauges := gs\<rparr>)"
    unfolding Reset_def Let_def using 1 2 3 4 by simp
  have c: "reset_counter_result ?a0 now = reset_counter_result a now"
    by (rule reset_result_cong) simp
  have t: "reset_timer_result ?a1 now = reset_timer_result a now"
    by (rule reset_result_cong) simp
  have s: "reset_set_result ?a2 now = reset_set_result a now"
    by (rule reset_result_cong) simp
  have g: "reset_gauge_result ?a3 now = reset_gauge_result a now"
    by (rule reset_result_cong) simp
  show ?thesis
  proof (intro exI[of _ cs] exI[of _ ts] exI[of _ ss] exI[of _ gs] conjI)
    show "Reset a now = Inr (a\<lparr>MetricMap.NumStats := 0, Counters := cs, Timers := ts,
        Sets := ss, Gauges := gs\<rparr>)"
      using run by simp
  qed (use wcs wts wss wgs lcs lts lss lgs c t s g in \<open>simp_all split: option.splits\<close>)
qed

section \<open>Lemmas on \<^verbatim>\<open>receiveMetric\<close>\<close>


lemma lookup2_None_outer: "map_of m key = None \<Longrightarrow> lookup2 m key tk = None"
  by (simp add: lookup2_def)

lemma lookup2_Some_outer: "map_of m key = Some v \<Longrightarrow> lookup2 m key tk = map_of v tk"
  by (simp add: lookup2_def)

lemma receiveMetric_Counters:
  "lookup2 (Counters (receiveMetric TS a m now w)) k tk =
     (if Type m = COUNTER \<and> k = Name m \<and> tk = TS (Tags m) then
        Some (case lookup2 (Counters a) k tk of
                Some c \<Rightarrow> c\<lparr>Counter.Value := Counter.Value c + int64 (Metric.Value m)\<rparr>
              | None \<Rightarrow> NewCounter now (MetricAggregator.FlushInterval a) (int64 (Metric.Value m)))
      else lookup2 (Counters a) k tk)"
proof (cases "Type m")
  case COUNTER
  show ?thesis
  proof (cases "map_of (Counters a) (Name m)")
    case None
    then show ?thesis using COUNTER
      by (simp add: receiveMetric_def Let_def lookup2_store2_absent lookup2_None_outer)
  next
    case (Some v)
    then show ?thesis using COUNTER
      by (cases "map_of v (TS (Tags m))")
        (simp_all add: receiveMetric_def Let_def lookup2_store2_present lookup2_Some_outer)
  qed
qed (simp_all add: receiveMetric_def Let_def split: option.splits)

lemma receiveMetric_Gauges:
  "lookup2 (Gauges (receiveMetric TS a m now w)) k tk =
     (if Type m = GAUGE \<and> k = Name m \<and> tk = TS (Tags m) then
        Some (case lookup2 (Gauges a) k tk of
                Some g \<Rightarrow> g\<lparr>Gauge.Value := Metric.Value m\<rparr>
              | None \<Rightarrow> NewGauge now (MetricAggregator.FlushInterval a) (Metric.Value m))
      else lookup2 (Gauges a) k tk)"
proof (cases "Type m")
  case GAUGE
  show ?thesis
  proof (cases "map_of (Gauges a) (Name m)")
    case None
    then show ?thesis using GAUGE
      by (simp add: receiveMetric_def Let_def lookup2_store2_absent lookup2_None_outer)
  next
    case (Some v)
    then show ?thesis using GAUGE
      by (cases "map_of v (TS (Tags m))")
        (simp_all add: receiveMetric_def Let_def lookup2_store2_present lookup2_Some_outer)
  qed
qed (simp_all add: receiveMetric_def Let_def split: option.splits)

lemma receiveMetric_Timers:
  "lookup2 (Timers (receiveMetric TS a m now w)) k tk =
     (if Type m = TIMER \<and> k = Name m \<and> tk = TS (Tags m) then
        Some (case lookup2 (Timers a) k tk of
                Some t \<Rightarrow> t\<lparr>Timer.Values := Timer.Values t @ [Metric.Value m]\<rparr>
              | None \<Rightarrow> NewTimer now (MetricAggregator.FlushInterval a) [Metric.Value m])
      else lookup2 (Timers a) k tk)"
proof (cases "Type m")
  case TIMER
  show ?thesis
  proof (cases "map_of (Timers a) (Name m)")
    case None
    then show ?thesis using TIMER
      by (simp add: receiveMetric_def Let_def lookup2_store2_absent lookup2_None_outer)
  next
    case (Some v)
    then show ?thesis using TIMER
      by (cases "map_of v (TS (Tags m))")
        (simp_all add: receiveMetric_def Let_def lookup2_store2_present lookup2_Some_outer)
  qed
qed (simp_all add: receiveMetric_def Let_def split: option.splits)

lemma receiveMetric_Sets:
  "lookup2 (Sets (receiveMetric TS a m now w)) k tk =
     (if Type m = SET \<and> k = Name m \<and> tk = TS (Tags m) then
        Some (case lookup2 (Sets a) k tk of
                Some s \<Rightarrow>
                  s\<lparr>Set.Values :=
                      (case map_of (Set.Values s) (StringValue m) of
                         Some n \<Rightarrow> AList.update (StringValue m) (n + 1) (Set.Values s)
                       | None \<Rightarrow> AList.update (StringValue m) 1 (Set.Values s))\<rparr>
              | None \<Rightarrow> NewSet now (MetricAggregator.FlushInterval a)
                          (AList.update (StringValue m) 1 []))
      else lookup2 (Sets a) k tk)"
proof (cases "Type m")
  case SET
  show ?thesis
  proof (cases "map_of (Sets a) (Name m)")
    case None
    then show ?thesis using SET
      by (simp add: receiveMetric_def Let_def lookup2_store2_absent lookup2_None_outer)
  next
    case (Some v)
    then show ?thesis using SET
      by (cases "map_of v (TS (Tags m))")
        (simp_all add: receiveMetric_def Let_def lookup2_store2_present lookup2_Some_outer)
  qed
qed (simp_all add: receiveMetric_def Let_def split: option.splits)

lemma receiveMetric_OTHER:
  assumes "Type m = OTHER n"
  shows "receiveMetric TS a m now w = a\<lparr>Stats := (Stats a)\<lparr>LastMessage := w\<rparr>\<rparr>"
  using assms by (simp add: receiveMetric_def Let_def)

lemma receiveMetric_config:
  "MetricAggregator.FlushInterval (receiveMetric TS a m now w) = MetricAggregator.FlushInterval a"
  "ExpiryInterval (receiveMetric TS a m now w) = ExpiryInterval a"
  "PercentThresholds (receiveMetric TS a m now w) = PercentThresholds a"
  by (cases "Type m"; simp add: receiveMetric_def Let_def split: option.splits)+

lemma receiveMetric_wf:
  assumes "wf_state a"
  shows "wf_state (receiveMetric TS a m now w)"
proof -
  have wf: "wf_nested (Counters a)" "wf_nested (Timers a)" "wf_nested (Gauges a)"
    "wf_nested (Sets a)"
    using assms by (simp_all add: wf_state_def)
  have st: "\<And>(mp :: 'v nested) v tk x. wf_nested mp \<Longrightarrow> map_of mp (Name m) = Some v \<Longrightarrow>
      wf_nested (store2 mp (Name m) v tk x)"
    by (rule wf_nested_store2) (auto dest: wf_nested_inner)
  have st0: "\<And>(mp :: 'v nested) tk x. wf_nested mp \<Longrightarrow> wf_nested (store2 mp (Name m) [] tk x)"
    by (rule wf_nested_store2) simp_all
  show ?thesis
    using wf
    by (cases "Type m")
      (auto simp: receiveMetric_def Let_def wf_state_def st st0 split: option.splits)
qed


lemma lookup2_Nil [simp]: "lookup2 [] k tk = None"
  by (simp add: lookup2_def)

lemma wf_state_New: "wf_state (NewMetricAggregator pcts fi e mw)"
  by (simp add: wf_state_def NewMetricAggregator_def)

lemma Sub_small:
  assumes "\<bar>d\<bar> < 2 ^ 63"
  shows "Sub (t + d) t = d"
proof -
  have "d \<le> 2 ^ 63 - 1" "- (2 ^ 63) \<le> d" using assms by linarith+
  then show ?thesis by (simp add: Sub_def Let_def maxDuration_def minDuration_def)
qed



lemma expiry_scenario_facts:
  assumes "Type m1 = COUNTER" "Type m2 = COUNTER"
    and "(Name m1, TS (Tags m1)) \<noteq> (Name m2, TS (Tags m2))"
  shows "wf_state (expiry_scenario TS e m1 m2 t0)"
    and "ExpiryInterval (expiry_scenario TS e m1 m2 t0) = e"
    and "\<exists>c. lookup2 (Counters (expiry_scenario TS e m1 m2 t0)) (Name m1) (TS (Tags m1)) = Some c
           \<and> Counter.Timestamp c = t0 \<and> Counter.Interval c = 1000000000"
    and "\<exists>c. lookup2 (Counters (expiry_scenario TS e m1 m2 t0)) (Name m2) (TS (Tags m2)) = Some c
           \<and> Counter.Timestamp c = t0 \<and> Counter.Interval c = 1000000000"
proof -
  show "wf_state (expiry_scenario TS e m1 m2 t0)"
    unfolding expiry_scenario_def by (intro receiveMetric_wf wf_state_New)
  show "ExpiryInterval (expiry_scenario TS e m1 m2 t0) = e"
    by (simp add: expiry_scenario_def receiveMetric_config NewMetricAggregator_def)
  have fi: "MetricAggregator.FlushInterval (NewMetricAggregator [90] 1000000000 e 4) = 1000000000"
    and c0: "Counters (NewMetricAggregator [90] 1000000000 e 4) = []"
    by (simp_all add: NewMetricAggregator_def)
  show "\<exists>c. lookup2 (Counters (expiry_scenario TS e m1 m2 t0)) (Name m1) (TS (Tags m1)) = Some c
           \<and> Counter.Timestamp c = t0 \<and> Counter.Interval c = 1000000000"
    using assms
    by (auto simp: expiry_scenario_def receiveMetric_Counters receiveMetric_config fi c0
        NewCounter_def Counter_lit_def)
  show "\<exists>c. lookup2 (Counters (expiry_scenario TS e m1 m2 t0)) (Name m2) (TS (Tags m2)) = Some c
           \<and> Counter.Timestamp c = t0 \<and> Counter.Interval c = 1000000000"
    using assms
    by (auto simp: expiry_scenario_def receiveMetric_Counters receiveMetric_config fi c0
        NewCounter_def Counter_lit_def)
qed


section \<open>Lemmas on the timer finalisation\<close>


lemma index_Inr: "0 \<le> i \<Longrightarrow> i < int (length xs) \<Longrightarrow> index xs i = Inr (xs ! nat i)"
  by (simp add: index_def)

lemma index_last:
  assumes "xs \<noteq> []"
  shows "index xs (int (length xs) - 1) = Inr (last xs)"
proof -
  have "nat (int (length xs) - 1) = length xs - 1" by simp
  then show ?thesis using assms by (simp add: index_def last_conv_nth)
qed

lemma cumul_loop_length:
  "length (fst (cumul_loop vs (cv, css))) = length cv + length vs \<and>
   length (snd (cumul_loop vs (cv, css))) = length css + length vs"
  by (induction vs arbitrary: cv css) auto

lemma cumul_loop_last:
  assumes "cv \<noteq> []" "css \<noteq> []"
  shows "last (fst (cumul_loop vs (cv, css))) = last cv + sum_list vs \<and>
         last (snd (cumul_loop vs (cv, css))) = last css + (\<Sum>v\<leftarrow>vs. v * v)"
  using assms by (induction vs arbitrary: cv css) (auto simp: algebra_simps)

lemma cumul_loop_nonempty:
  assumes "cv \<noteq> []" "css \<noteq> []"
  shows "fst (cumul_loop vs (cv, css)) \<noteq> [] \<and> snd (cumul_loop vs (cv, css)) \<noteq> []"
  using assms by (induction vs arbitrary: cv css) auto

lemma sumOfDiffs_loop_eq:
  "sumOfDiffs_loop m vals = (\<Sum>v\<leftarrow>vals. (v - m) * (v - m))"
proof -
  have "foldl (\<lambda>s v. s + (v - m) * (v - m)) acc vals = acc + (\<Sum>v\<leftarrow>vals. (v - m) * (v - m))"
    for acc
    by (induction vals arbitrary: acc) (auto simp: algebra_simps)
  then show ?thesis by (simp add: sumOfDiffs_loop_def)
qed

lemma sum_list_map_sort:
  fixes f :: "real \<Rightarrow> real"
  shows "(\<Sum>v\<leftarrow>sort vs. f v) = (\<Sum>v\<leftarrow>vs. f v)"
proof -
  have "sum_mset (mset (map f (sort vs))) = sum_mset (mset (map f vs))" by simp
  then show ?thesis by (simp only: sum_mset_sum_list)
qed

lemma int_of_float_of_int [simp]: "int_of_float (real_of_int i) = i"
  by (simp add: int_of_float_def)

lemma int_of_float_of_nat [simp]: "int_of_float (real n) = int n"
  by (simp add: int_of_float_def)

lemma median_of_eq:
  assumes "vals \<noteq> []"
  shows "median_of (int (length vals)) vals =
     Inr (if even (length vals)
          then (vals ! (length vals div 2 - 1) + vals ! (length vals div 2)) / 2
          else vals ! (length vals div 2))"
proof -
  let ?n = "length vals"
  have n: "0 < ?n" using assms by simp
  have fl: "\<lfloor>real_of_int (int ?n) / 2\<rfloor> = int (?n div 2)"
    by (simp add: floor_divide_of_int_eq[of "int ?n" 2, where ?'a = real, simplified] zdiv_int)
  have par: "(int ?n mod 2 = 0) = even ?n"
    by (simp flip: even_iff_mod_2_eq_zero)
  have mid: "index vals (int (?n div 2)) = Inr (vals ! (?n div 2))"
    using n by (simp add: index_def)
  show ?thesis
  proof (cases "even ?n")
    case True
    then obtain b where b: "?n = 2 * b" by (elim evenE)
    have "b \<noteq> 0" using n b by (cases b) simp_all
    then have "2 \<le> ?n" using b by simp
    then have "index vals (int (?n div 2) - 1) = Inr (vals ! (?n div 2 - 1))"
      by (simp add: index_def nat_diff_distrib)
    then show ?thesis using True mid
      unfolding median_of_def Let_def fl par by simp
  next
    case False
    then show ?thesis using mid
      unfolding median_of_def Let_def fl par by simp
  qed
qed


lemma numInThreshold_of_nonneg:
  assumes "1 < cnt"
  shows "0 \<le> numInThreshold_of cnt pct"
proof -
  have "0 \<le> \<bar>pct\<bar> / 100 * real_of_int cnt" using assms by simp
  then have "0 \<le> \<lfloor>\<bar>pct\<bar> / 100 * real_of_int cnt + 0.5\<rfloor>" by simp
  then show ?thesis using assms by (simp add: numInThreshold_of_def round'_def)
qed

lemma numInThreshold_of_le:
  assumes "1 < cnt" "\<bar>pct\<bar> \<le> 100"
  shows "numInThreshold_of cnt pct \<le> cnt"
proof -
  have "\<bar>pct\<bar> / 100 * real_of_int cnt \<le> 1 * real_of_int cnt"
    using assms by (intro mult_right_mono) simp_all
  then have "\<bar>pct\<bar> / 100 * real_of_int cnt + 0.5 < real_of_int (cnt + 1)" by simp
  then have "\<lfloor>\<bar>pct\<bar> / 100 * real_of_int cnt + 0.5\<rfloor> < cnt + 1"
    by (simp only: floor_less_iff)
  then show ?thesis using assms by (simp add: numInThreshold_of_def round'_def)
qed

lemma numInThreshold_of_zero:
  assumes "1 < cnt"
  shows "numInThreshold_of cnt 0 = 0"
  using assms by (simp add: numInThreshold_of_def round'_def int_of_float_def)

lemma numInThreshold_of_full:
  assumes "1 < cnt" "\<bar>pct\<bar> = 100"
  shows "numInThreshold_of cnt pct = cnt"
  using assms by (simp add: numInThreshold_of_def round'_def)

lemma threshold_safe_upper:
  assumes "0 \<le> pct" "pct \<le> 100"
  shows "threshold_safe cnt pct"
proof (cases "1 < cnt")
  case True
  show ?thesis
  proof (cases "pct = 0")
    case True
    then show ?thesis using \<open>1 < cnt\<close> by (simp add: threshold_safe_def numInThreshold_of_zero)
  next
    case False
    then have "0 < pct" using assms by simp
    moreover have "numInThreshold_of cnt pct \<le> cnt"
      using True assms by (intro numInThreshold_of_le) simp_all
    ultimately show ?thesis by (simp add: threshold_safe_def)
  qed
next
  case False
  then show ?thesis by (simp add: threshold_safe_def)
qed

lemma threshold_unsafe_minus_100:
  assumes "1 < cnt"
  shows "\<not> threshold_safe cnt (- 100)"
  using assms numInThreshold_of_full[OF assms, of "- 100"]
  by (simp add: threshold_safe_def)

lemma pct_update_Inr_iff:
  assumes "int (length vals) = cnt" "int (length cv) = cnt" "int (length css) = cnt"
    and "0 < n"
  shows "(\<exists>s'. pct_update cnt vals cv css pct n s = Inr s') \<longleftrightarrow>
         (if pct > 0 then n \<le> cnt else n < cnt)"
proof (cases "pct > 0")
  case True
  show ?thesis
  proof (cases "n \<le> cnt")
    case le: True
    then show ?thesis using True assms
      by (simp add: pct_update_def index_def)
  next
    case False
    then show ?thesis using True assms
      by (simp add: pct_update_def index_def)
  qed
next
  case False
  show ?thesis
  proof (cases "n < cnt")
    case lt: True
    then show ?thesis using False assms
      by (simp add: pct_update_def index_def)
  next
    case ge: False
    show ?thesis
    proof (cases "n \<le> cnt")
      case True
      then have "n = cnt" using ge by simp
      then show ?thesis using False assms
        by (simp add: pct_update_def index_def)
    next
      case False
      then show ?thesis using \<open>\<not> 0 < pct\<close> assms
        by (simp add: pct_update_def index_def)
    qed
  qed
qed

lemma pct_step_Inr_iff:
  assumes "int (length vals) = cnt" "int (length cv) = cnt" "int (length css) = cnt"
  shows "(\<exists>s'. pct_step cnt vals cv css pct s = Inr s') \<longleftrightarrow> threshold_safe cnt pct"
proof (cases "1 < cnt")
  case True
  show ?thesis
  proof (cases "numInThreshold_of cnt pct = 0")
    case z: True
    then show ?thesis using True by (simp add: pct_step_def threshold_safe_def)
  next
    case False
    then have pos: "0 < numInThreshold_of cnt pct"
      using numInThreshold_of_nonneg[OF True, of pct] by simp
    have "(\<exists>s'. pct_step cnt vals cv css pct s = Inr s') \<longleftrightarrow>
          (\<exists>s'. pct_update cnt vals cv css pct (numInThreshold_of cnt pct) s = Inr s')"
      using True False by (auto simp: pct_step_def Let_def bindE_Inr_iff)
    then show ?thesis
      using pct_update_Inr_iff[OF assms pos, of pct s] True False
      by (simp add: threshold_safe_def)
  qed
next
  case False
  then show ?thesis by (simp add: pct_step_def threshold_safe_def Let_def)
qed

lemma pct_loop_Inr_iff:
  assumes "int (length vals) = cnt" "int (length cv) = cnt" "int (length css) = cnt"
  shows "(\<exists>s'. pct_loop cnt vals cv css pcts s = Inr s') \<longleftrightarrow>
         (\<forall>p \<in> set pcts. threshold_safe cnt p)"
proof (induction pcts arbitrary: s)
  case Nil
  show ?case by simp
next
  case (Cons p pcts)
  show ?case
  proof (cases "threshold_safe cnt p")
    case True
    then obtain s1 where s1: "pct_step cnt vals cv css p s = Inr s1"
      using pct_step_Inr_iff[OF assms, of p s] by blast
    then show ?thesis using True Cons.IH[of s1] by simp
  next
    case False
    then have "\<And>s1. pct_step cnt vals cv css p s \<noteq> Inr s1"
      using pct_step_Inr_iff[OF assms, of p s] by blast
    then show ?thesis using False by (auto simp: bindE_Inr_iff)
  qed
qed


lemma finalize_timer_eq:
  assumes "Timer.Values t \<noteq> []"
  shows "\<exists>cv css. int (length cv) = int (length (Timer.Values t)) \<and>
           int (length css) = int (length (Timer.Values t)) \<and>
           last cv = sum_list (Timer.Values t) \<and>
           last css = (\<Sum>v\<leftarrow>Timer.Values t. v * v) \<and>
           finalize_timer fi pcts t =
           bindE (pct_loop (int (length (Timer.Values t))) (sort (Timer.Values t)) cv css pcts
                   (pct_init t))
             (\<lambda>s. Inr (timer_stats fi t (percentiles s)))"
proof -
  let ?vs = "Timer.Values t"
  let ?vals = "sort ?vs"
  let ?n = "length ?vs"
  have ne: "?vals \<noteq> []" using assms by (metis length_sort length_0_conv)
  have len: "length ?vals = ?n" by simp
  obtain mn rest where vals: "?vals = mn # rest" using ne by (cases ?vals) auto
  have hd: "hd ?vals = mn" by (simp add: vals)
  have i0: "index ?vals 0 = Inr mn" using ne by (simp add: index_def vals)
  have il: "index ?vals (int (length ?vals) - 1) = Inr (last ?vals)"
    by (rule index_last[OF ne])
  obtain cv css where cc: "cumul_loop (tl ?vals) ([mn], [mn * mn]) = (cv, css)"
    by (cases "cumul_loop (tl ?vals) ([mn], [mn * mn])")
  have lens: "length cv = ?n" "length css = ?n"
    using cumul_loop_length[of "tl ?vals" "[mn]" "[mn * mn]"] cc len
    by (simp_all add: vals)
  have nonempty: "cv \<noteq> []" "css \<noteq> []"
    using cumul_loop_nonempty[of "[mn]" "[mn * mn]" "tl ?vals"] cc by simp_all
  have lasts: "last cv = sum_list ?vals" "last css = (\<Sum>v\<leftarrow>?vals. v * v)"
    using cumul_loop_last[of "[mn]" "[mn * mn]" "tl ?vals"] cc by (simp_all add: vals)
  have sums: "sum_list ?vals = sum_list ?vs" "(\<Sum>v\<leftarrow>?vals. v * v) = (\<Sum>v\<leftarrow>?vs. v * v)"
    using sum_list_map_sort[of "\<lambda>v. v" ?vs] sum_list_map_sort[of "\<lambda>v. v * v" ?vs] by simp_all
  have icv: "index cv (int (length ?vals) - 1) = Inr (sum_list ?vs)"
    using index_last[OF nonempty(1)] lens lasts sums by simp
  have icss: "index css (int (length ?vals) - 1) = Inr (\<Sum>v\<leftarrow>?vs. v * v)"
    using index_last[OF nonempty(2)] lens lasts sums by simp
  have med: "median_of (int (length ?vals)) ?vals =
     Inr (if even ?n then (?vals ! (?n div 2 - 1) + ?vals ! (?n div 2)) / 2
          else ?vals ! (?n div 2))"
    using median_of_eq[OF ne] by simp
  have sod: "sumOfDiffs_loop m ?vals = (\<Sum>v\<leftarrow>?vs. (v - m) * (v - m))" for m
    using sum_list_map_sort[of "\<lambda>v. (v - m) * (v - m)" ?vs] by (simp add: sumOfDiffs_loop_eq)
  have "finalize_timer fi pcts t =
           bindE (pct_loop (int ?n) ?vals cv css pcts (pct_init t))
             (\<lambda>s. Inr (timer_stats fi t (percentiles s)))"
    unfolding finalize_timer_def timer_stats_def pct_init_def Let_def i0 il bindE_simps cc
      prod.case icv icss med sod hd
    using len by (simp add: bindE_def split: sum.splits)
  then show ?thesis using lens lasts sums by auto
qed


lemma finalize_timer_Inr_iff:
  assumes "Timer.Values t \<noteq> []"
  shows "(\<exists>t'. finalize_timer fi pcts t = Inr t') \<longleftrightarrow>
         (\<forall>p \<in> set pcts. threshold_safe (int (length (Timer.Values t))) p)"
proof -
  from finalize_timer_eq[OF assms, of fi pcts] obtain cv css where
    l: "int (length cv) = int (length (Timer.Values t))"
       "int (length css) = int (length (Timer.Values t))"
    and eq: "finalize_timer fi pcts t =
       bindE (pct_loop (int (length (Timer.Values t))) (sort (Timer.Values t)) cv css pcts
                (pct_init t))
         (\<lambda>s. Inr (timer_stats fi t (percentiles s)))"
    by blast
  have "(\<exists>t'. finalize_timer fi pcts t = Inr t') \<longleftrightarrow>
        (\<exists>s. pct_loop (int (length (Timer.Values t))) (sort (Timer.Values t)) cv css pcts
                (pct_init t) = Inr s)"
    unfolding eq by (auto simp: bindE_Inr_iff)
  also have "\<dots> \<longleftrightarrow> (\<forall>p \<in> set pcts. threshold_safe (int (length (Timer.Values t))) p)"
    by (rule pct_loop_Inr_iff) (use l in simp_all)
  finally show ?thesis .
qed

lemma finalize_timer_stats:
  assumes "Timer.Values t \<noteq> []" and "finalize_timer fi pcts t = Inr t'"
  shows "\<exists>ps. t' = timer_stats fi t ps"
proof -
  from finalize_timer_eq[OF assms(1), of fi pcts] obtain cv css where
    eq: "finalize_timer fi pcts t =
       bindE (pct_loop (int (length (Timer.Values t))) (sort (Timer.Values t)) cv css pcts
                (pct_init t))
         (\<lambda>s. Inr (timer_stats fi t (percentiles s)))"
    by blast
  have "bindE (pct_loop (int (length (Timer.Values t))) (sort (Timer.Values t)) cv css pcts
                (pct_init t))
         (\<lambda>s. Inr (timer_stats fi t (percentiles s))) = Inr t'"
    using assms(2) by (simp only: eq)
  then show ?thesis by (auto simp: bindE_Inr_iff)
qed

lemma pct_step_minus_100:
  assumes "int (length vals) = cnt" "int (length cv) = cnt" "int (length css) = cnt" "1 < cnt"
  shows "pct_step cnt vals cv css (- 100) s = Inl (IndexOutOfRange (- 1) (length cv))"
proof -
  have n: "numInThreshold_of cnt (- 100) = cnt"
    by (rule numInThreshold_of_full[OF assms(4)]) simp
  show ?thesis
    using assms by (simp add: pct_step_def n Let_def pct_update_def index_def)
qed



lemmas timer_eval =
  finalize_timer_def index_def bindE_def pct_step_def numInThreshold_of_def round'_def
  int_of_float_def pct_update_def pct_emit_def Percentiles_Set_def Sprintf_d_def show_nat.simps
  digit_def sumOfDiffs_loop_def median_of_def Seconds_def Let_def


section \<open>Lemmas on \<^verbatim>\<open>flush\<close>\<close>


lemma flush_counter_step:
  assumes "fst s = b\<lparr>Counters := c\<rparr>" and "flush_counter k tk x s = Inr s'"
  shows "(\<exists>c'. fst s' = b\<lparr>Counters := c'\<rparr>) \<and>
         (\<forall>k' tk'. lookup2 (Counters (fst s')) k' tk' =
            (if k' = k \<and> tk' = tk then Some (flush_counter_result b x)
             else lookup2 (Counters (fst s)) k' tk'))"
proof -
  obtain t n where s: "s = (t, n)" by (cases s)
  from assms s obtain c' where c': "assign2 c k tk (flush_counter_result b x) = Inr c'"
    and t': "fst s' = b\<lparr>Counters := c'\<rparr>"
    by (auto simp: flush_counter_def Let_def bindE_Inr_iff flush_counter_result_def)
  show ?thesis using assms(1) t' assign2_Inr[OF c'] by auto
qed

lemma flush_counter_ok:
  assumes "lookup2 (Counters t) k tk \<noteq> None"
  shows "\<exists>r. flush_counter k tk x (t, n) = Inr r"
proof -
  obtain c' where "assign2 (Counters t) k tk
      (x\<lparr>Counter.PerSecond := float64 (Counter.Value x) / Seconds (MetricAggregator.FlushInterval t)\<rparr>)
      = Inr c'"
    using assign2_total[OF assms] by blast
  then show ?thesis by (simp add: flush_counter_def Let_def)
qed

lemma flush_counter_wf:
  assumes "wf_nested (Counters (fst s))" "flush_counter k tk x s = Inr s'"
  shows "wf_nested (Counters (fst s'))"
  using assms
  by (cases s) (auto simp: flush_counter_def Let_def bindE_Inr_iff wf_nested_assign2)

lemma flush_Counters:
  assumes "wf_nested (Counters b)"
  shows "\<exists>c' n. EachCounter (Counters b) flush_counter (b, n0) = Inr (b\<lparr>Counters := c'\<rparr>, n) \<and>
           wf_nested c' \<and>
           (\<forall>k tk. lookup2 c' k tk = map_option (flush_counter_result b) (lookup2 (Counters b) k tk))"
proof -
  let ?P = "\<lambda>s :: MetricAggregator \<times> int. \<exists>c. fst s = b\<lparr>Counters := c\<rparr>"
  let ?get = "\<lambda>s :: MetricAggregator \<times> int. Counters (fst s)"
  have "\<exists>s'. EachCounter (Counters b) flush_counter (b, n0) = Inr s' \<and> ?P s' \<and>
           (\<forall>k tk. lookup2 (?get s') k tk =
              (case lookup2 (Counters b) k tk of None \<Rightarrow> None
               | Some x \<Rightarrow> Some (flush_counter_result b x)))"
  proof (rule Each_result[where P = ?P and get = ?get
        and g = "\<lambda>k tk x. Some (flush_counter_result b x)"])
    show "wf_nested (Counters b)" by (rule assms)
  next
    show "?P (b, n0)" by (simp add: exI[of _ "Counters b"])
  next
    show "?get (b, n0) = Counters b" by simp
  next
    fix k tk x and t :: "MetricAggregator \<times> int"
    assume "lookup2 (?get t) k tk = Some x"
    then show "\<exists>t'. flush_counter k tk x t = Inr t'"
      using flush_counter_ok[of "fst t" k tk x "snd t"] by simp
  next
    fix k tk x and t t' :: "MetricAggregator \<times> int"
    assume "?P t" "flush_counter k tk x t = Inr t'"
    then show "?P t' \<and> (\<forall>k' tk'. lookup2 (?get t') k' tk' =
         (if k' = k \<and> tk' = tk then Some (flush_counter_result b x) else lookup2 (?get t) k' tk'))"
      using flush_counter_step by blast
  qed
  then obtain s' c' where run: "EachCounter (Counters b) flush_counter (b, n0) = Inr s'"
    and s': "fst s' = b\<lparr>Counters := c'\<rparr>"
    and res: "\<forall>k tk. lookup2 (?get s') k tk =
              (case lookup2 (Counters b) k tk of None \<Rightarrow> None
               | Some x \<Rightarrow> Some (flush_counter_result b x))"
    by blast
  have wf: "wf_nested (Counters (fst s'))"
    by (rule Each_wf[where Q = "\<lambda>t. wf_nested (Counters (fst t))", OF run _ flush_counter_wf])
      (simp_all add: assms)
  have eq: "s' = (b\<lparr>Counters := c'\<rparr>, snd s')" using s' by (cases s') simp
  have l: "\<forall>k tk. lookup2 c' k tk = map_option (flush_counter_result b) (lookup2 (Counters b) k tk)"
    using res s' by (auto split: option.splits)
  have w: "wf_nested c'" using wf s' by simp
  have "EachCounter (Counters b) flush_counter (b, n0) = Inr (b\<lparr>Counters := c'\<rparr>, snd s')"
    using run eq by simp
  then show ?thesis using w l by blast
qed


lemma flush_timer_step:
  assumes "fst s = b\<lparr>Timers := c\<rparr>" and "flush_timer k tk x s = Inr s'"
    and "lookup2 (Timers (fst s)) k tk = Some x"
  shows "(\<exists>c'. fst s' = b\<lparr>Timers := c'\<rparr>) \<and>
         (\<forall>k' tk'. lookup2 (Timers (fst s')) k' tk' =
            (if k' = k \<and> tk' = tk then flush_timer_result b x
             else lookup2 (Timers (fst s)) k' tk'))"
proof -
  obtain t n where s: "s = (t, n)" by (cases s)
  have t: "t = b\<lparr>Timers := c\<rparr>" using assms(1) s by simp
  show ?thesis
  proof (cases "Timer.Values x = []")
    case True
    then have "s' = s" using assms(2) s by (simp add: flush_timer_def)
    then show ?thesis using assms(1,3) True by (auto simp: flush_timer_result_def)
  next
    case False
    from assms(2) s False t obtain timer' c' where
      f: "finalize_timer (MetricAggregator.FlushInterval b) (PercentThresholds b) x = Inr timer'"
      and c': "assign2 c k tk timer' = Inr c'"
      and t': "fst s' = b\<lparr>Timers := c'\<rparr>"
      by (auto simp: flush_timer_def bindE_Inr_iff)
    have "flush_timer_result b x = Some timer'"
      using False f by (simp add: flush_timer_result_def)
    then show ?thesis using assms(1) t' assign2_Inr[OF c'] by auto
  qed
qed

lemma flush_timer_ok:
  assumes "lookup2 (Timers (fst s)) k tk \<noteq> None"
    and "Timer.Values x \<noteq> [] \<Longrightarrow>
         \<exists>t'. finalize_timer (MetricAggregator.FlushInterval (fst s)) (PercentThresholds (fst s)) x = Inr t'"
  shows "\<exists>r. flush_timer k tk x s = Inr r"
proof (cases "Timer.Values x = []")
  case True
  then show ?thesis by (cases s) (simp add: flush_timer_def)
next
  case False
  obtain t n where s: "s = (t, n)" by (cases s)
  from assms(2)[OF False] s obtain timer' where
    f: "finalize_timer (MetricAggregator.FlushInterval t) (PercentThresholds t) x = Inr timer'"
    by auto
  obtain c' where "assign2 (Timers t) k tk timer' = Inr c'"
    using assign2_total[of "Timers t" k tk timer'] assms(1) s by auto
  then show ?thesis using False f s by (simp add: flush_timer_def)
qed

lemma flush_timer_wf:
  assumes "wf_nested (Timers (fst s))" "flush_timer k tk x s = Inr s'"
  shows "wf_nested (Timers (fst s'))"
  using assms
  by (cases s) (auto simp: flush_timer_def bindE_Inr_iff wf_nested_assign2 split: if_splits)

lemma flush_timer_steps:
  fixes b :: MetricAggregator
  assumes "\<exists>c. fst (t :: MetricAggregator \<times> int) = b\<lparr>Timers := c\<rparr>"
    and "lookup2 (Timers (fst t)) k tk = Some x" and "flush_timer k tk x t = Inr t'"
  shows "(\<exists>c. fst t' = b\<lparr>Timers := c\<rparr>) \<and> (\<forall>k' tk'. lookup2 (Timers (fst t')) k' tk' =
         (if k' = k \<and> tk' = tk then flush_timer_result b x else lookup2 (Timers (fst t)) k' tk'))"
  using assms flush_timer_step by blast

lemma flush_Timers_lookup:
  assumes "wf_nested (Timers b)" and "EachTimer (Timers b) flush_timer (b, n0) = Inr s'"
  shows "\<exists>c'. fst s' = b\<lparr>Timers := c'\<rparr> \<and> wf_nested c' \<and>
           (\<forall>k tk. lookup2 c' k tk =
              (case lookup2 (Timers b) k tk of None \<Rightarrow> None | Some x \<Rightarrow> flush_timer_result b x))"
proof -
  let ?P = "\<lambda>s :: MetricAggregator \<times> int. \<exists>c. fst s = b\<lparr>Timers := c\<rparr>"
  let ?get = "\<lambda>s :: MetricAggregator \<times> int. Timers (fst s)"
  have res: "?P s' \<and> (\<forall>k tk. lookup2 (?get s') k tk =
           (case lookup2 (Timers b) k tk of None \<Rightarrow> None | Some x \<Rightarrow> flush_timer_result b x))"
  proof (rule Each_lookup[where P = ?P and get = ?get and g = "\<lambda>k tk x. flush_timer_result b x"
        and f = flush_timer and m = "Timers b" and s = "(b, n0)"])
    show "EachTimer (Timers b) flush_timer (b, n0) = Inr s'" by (rule assms(2))
  next
    show "wf_nested (Timers b)" by (rule assms(1))
  next
    show "?P (b, n0)" by (simp add: exI[of _ "Timers b"])
  next
    show "?get (b, n0) = Timers b" by simp
  next
    fix k tk x and t t' :: "MetricAggregator \<times> int"
    assume "?P t" "lookup2 (?get t) k tk = Some x" "flush_timer k tk x t = Inr t'"
    then show "?P t' \<and> (\<forall>k' tk'. lookup2 (?get t') k' tk' =
         (if k' = k \<and> tk' = tk then flush_timer_result b x else lookup2 (?get t) k' tk'))"
      by (rule flush_timer_steps)
  qed
  then obtain c' where s': "fst s' = b\<lparr>Timers := c'\<rparr>" by blast
  have wf: "wf_nested (Timers (fst s'))"
    by (rule Each_wf[where Q = "\<lambda>t. wf_nested (Timers (fst t))", OF assms(2) _ flush_timer_wf])
      (simp_all add: assms(1))
  have "\<forall>k tk. lookup2 c' k tk =
      (case lookup2 (Timers b) k tk of None \<Rightarrow> None | Some x \<Rightarrow> flush_timer_result b x)"
    using res s' by simp
  moreover have "wf_nested c'" using wf s' by simp
  ultimately show ?thesis using s' by blast
qed

lemma timers_safe_lookup:
  assumes "timers_safe b" "lookup2 (Timers b) k tk = Some x" "Timer.Values x \<noteq> []"
  shows "\<exists>t'. finalize_timer (MetricAggregator.FlushInterval b) (PercentThresholds b) x = Inr t'"
proof -
  from assms(2) obtain v where v: "map_of (Timers b) k = Some v" and x: "map_of v tk = Some x"
    by (auto simp: lookup2_def split: option.splits)
  have "(k, v) \<in> set (Timers b)" "(tk, x) \<in> set v"
    using v x by (auto dest: map_of_SomeD)
  then have "\<forall>p \<in> set (PercentThresholds b). threshold_safe (int (length (Timer.Values x))) p"
    using assms(1) by (fastforce simp: timers_safe_def)
  then show ?thesis using finalize_timer_Inr_iff[OF assms(3)] by simp
qed

lemma flush_Timers_total:
  assumes "wf_nested (Timers b)" and "timers_safe b"
  shows "\<exists>s'. EachTimer (Timers b) flush_timer (b, n0) = Inr s'"
proof -
  let ?P = "\<lambda>s :: MetricAggregator \<times> int. \<exists>c. fst s = b\<lparr>Timers := c\<rparr>"
  let ?get = "\<lambda>s :: MetricAggregator \<times> int. Timers (fst s)"
  show ?thesis
  proof (rule Each_total[where P = ?P and get = ?get and g = "\<lambda>k tk x. flush_timer_result b x"
        and f = flush_timer and m = "Timers b" and s = "(b, n0)"])
    show "wf_nested (Timers b)" by (rule assms(1))
  next
    show "?P (b, n0)" by (simp add: exI[of _ "Timers b"])
  next
    show "?get (b, n0) = Timers b" by simp
  next
    fix k tk x and t :: "MetricAggregator \<times> int"
    assume l: "lookup2 (Timers b) k tk = Some x" and P: "?P t"
      and c: "lookup2 (?get t) k tk = Some x"
    from P obtain cc where t: "fst t = b\<lparr>Timers := cc\<rparr>" by blast
    show "\<exists>t'. flush_timer k tk x t = Inr t'"
    proof (rule flush_timer_ok)
      show "lookup2 (Timers (fst t)) k tk \<noteq> None" using c by simp
    next
      assume "Timer.Values x \<noteq> []"
      from timers_safe_lookup[OF assms(2) l this]
      show "\<exists>t'. finalize_timer (MetricAggregator.FlushInterval (fst t))
              (PercentThresholds (fst t)) x = Inr t'"
        by (simp add: t)
    qed
  next
    fix k tk x and t t' :: "MetricAggregator \<times> int"
    assume "?P t" "lookup2 (?get t) k tk = Some x" "flush_timer k tk x t = Inr t'"
    then show "?P t' \<and> (\<forall>k' tk'. lookup2 (?get t') k' tk' =
         (if k' = k \<and> tk' = tk then flush_timer_result b x else lookup2 (?get t) k' tk'))"
      by (rule flush_timer_steps)
  qed
qed


lemma flush_timer_result_cong:
  assumes "MetricAggregator.FlushInterval b = MetricAggregator.FlushInterval a"
    and "PercentThresholds b = PercentThresholds a"
  shows "flush_timer_result b = flush_timer_result a"
  using assms by (simp add: fun_eq_iff flush_timer_result_def)

lemma flush_finish_facts:
  "fst (flush_finish a2 n3 startTime endTime) =
     a2\<lparr>Stats := Stats (fst (flush_finish a2 n3 startTime endTime))\<rparr> \<and>
   Counters (snd (flush_finish a2 n3 startTime endTime)) = Counters a2 \<and>
   Timers (snd (flush_finish a2 n3 startTime endTime)) = Timers a2 \<and>
   Gauges (snd (flush_finish a2 n3 startTime endTime)) = Gauges a2 \<and>
   Sets (snd (flush_finish a2 n3 startTime endTime)) = Sets a2 \<and>
   MetricMap.FlushInterval (snd (flush_finish a2 n3 startTime endTime)) =
     MetricAggregator.FlushInterval a2"
  by (cases "lookup2 (Counters a2) ''statsd.bad_lines_seen'' []")
    (simp_all add: flush_finish_def Let_def CopyCounters_def CopyTimers_def CopyGauges_def
      CopySets_def)

lemma flush_result:
  assumes "wf_state a" and "flush a startTime endTime = Inr (a', snap)"
  shows "\<exists>cs ts stats. a' = a\<lparr>Counters := cs, Timers := ts, Stats := stats\<rparr> \<and>
           wf_nested cs \<and> wf_nested ts \<and>
           (\<forall>k tk. lookup2 cs k tk = map_option (flush_counter_result a) (lookup2 (Counters a) k tk)) \<and>
           (\<forall>k tk. lookup2 ts k tk =
              (case lookup2 (Timers a) k tk of None \<Rightarrow> None | Some x \<Rightarrow> flush_timer_result a x)) \<and>
           Counters snap = cs \<and> Timers snap = ts \<and> Gauges snap = Gauges a \<and> Sets snap = Sets a \<and>
           MetricMap.FlushInterval snap = MetricAggregator.FlushInterval a"
proof -
  have wf: "wf_nested (Counters a)" "wf_nested (Timers a)"
    using assms(1) by (simp_all add: wf_state_def)
  from flush_Counters[OF wf(1), of 0] obtain cs n1 where
    1: "EachCounter (Counters a) flush_counter (a, 0) = Inr (a\<lparr>Counters := cs\<rparr>, n1)"
    and wcs: "wf_nested cs"
    and lcs: "\<forall>k tk. lookup2 cs k tk = map_option (flush_counter_result a) (lookup2 (Counters a) k tk)"
    by blast
  let ?a1 = "a\<lparr>Counters := cs\<rparr>"
  let ?n2 = "fold (\<lambda>(key, gauges) numStats. numStats + int (length gauges)) (Gauges ?a1) n1"
  from assms(2) obtain s2 where
    2: "EachTimer (Timers ?a1) flush_timer (?a1, ?n2) = Inr s2"
    unfolding flush_def 1 bindE_simps prod.case Let_def
    by (auto simp: bindE_Inr_iff)
  obtain a2 n3 where s2: "s2 = (a2, n3)" by (cases s2)
  have wf1: "wf_nested (Timers ?a1)" using wf(2) by simp
  from flush_Timers_lookup[OF wf1 2] s2 obtain ts where
    a2: "a2 = ?a1\<lparr>Timers := ts\<rparr>" and wts: "wf_nested ts"
    and lts: "\<forall>k tk. lookup2 ts k tk =
      (case lookup2 (Timers ?a1) k tk of None \<Rightarrow> None | Some x \<Rightarrow> flush_timer_result ?a1 x)"
    by auto
  have cong: "flush_timer_result ?a1 = flush_timer_result a"
    by (rule flush_timer_result_cong) simp_all
  obtain a4 snap' where r0: "flush_finish a2 n3 startTime endTime = (a4, snap')"
    by (cases "flush_finish a2 n3 startTime endTime")
  define stats where "stats = Stats a4"
  from flush_finish_facts[of a2 n3 startTime endTime] r0 have
    r: "flush_finish a2 n3 startTime endTime = (a2\<lparr>Stats := stats\<rparr>, snap')"
    and sn: "Counters snap' = Counters a2" "Timers snap' = Timers a2" "Gauges snap' = Gauges a2"
      "Sets snap' = Sets a2" "MetricMap.FlushInterval snap' = MetricAggregator.FlushInterval a2"
    by (simp_all add: stats_def)
  have "flush a startTime endTime = Inr (a2\<lparr>Stats := stats\<rparr>, snap')"
    unfolding flush_def 1 bindE_simps prod.case
    using 2 s2 r by (simp add: Let_def)
  then have e: "a' = a2\<lparr>Stats := stats\<rparr>" "snap = snap'" using assms(2) by simp_all
  show ?thesis
  proof (intro exI[of _ cs] exI[of _ ts] exI[of _ stats] conjI)
    show "a' = a\<lparr>Counters := cs, Timers := ts, Stats := stats\<rparr>" using e a2 by simp
    show "\<forall>k tk. lookup2 ts k tk =
              (case lookup2 (Timers a) k tk of None \<Rightarrow> None | Some x \<Rightarrow> flush_timer_result a x)"
      using lts cong by (simp split: option.splits)
  qed (use wcs wts lcs e sn a2 in simp_all)
qed

lemma flush_total:
  assumes "wf_state a" and "timers_safe a"
  shows "\<exists>a' snap. flush a startTime endTime = Inr (a', snap)"
proof -
  have wf: "wf_nested (Counters a)" "wf_nested (Timers a)"
    using assms(1) by (simp_all add: wf_state_def)
  from flush_Counters[OF wf(1), of 0] obtain cs n1 where
    1: "EachCounter (Counters a) flush_counter (a, 0) = Inr (a\<lparr>Counters := cs\<rparr>, n1)"
    by blast
  let ?a1 = "a\<lparr>Counters := cs\<rparr>"
  let ?n2 = "fold (\<lambda>(key, gauges) numStats. numStats + int (length gauges)) (Gauges ?a1) n1"
  have wf1: "wf_nested (Timers ?a1)" using wf(2) by simp
  have safe1: "timers_safe ?a1" using assms(2) by (simp add: timers_safe_def)
  from flush_Timers_total[OF wf1 safe1, of ?n2] obtain s2 where
    2: "EachTimer (Timers ?a1) flush_timer (?a1, ?n2) = Inr s2" by blast
  obtain a2 n3 where s2: "s2 = (a2, n3)" by (cases s2)
  obtain a4 snap' where r: "flush_finish a2 n3 startTime endTime = (a4, snap')"
    by (cases "flush_finish a2 n3 startTime endTime")
  have "flush a startTime endTime = Inr (a4, snap')"
    unfolding flush_def 1 bindE_simps prod.case
    using 2 s2 r by (simp add: Let_def)
  then show ?thesis by blast
qed


lemma foldE_steps_ok:
  assumes "foldE f es s = Inr s'" and "P s"
    and "\<And>e t t'. P t \<Longrightarrow> f e t = Inr t' \<Longrightarrow> P t'"
    and "e \<in> set es"
  shows "\<exists>t t'. P t \<and> f e t = Inr t'"
  using assms(1,2,4)
proof (induction es arbitrary: s)
  case Nil
  then show ?case by simp
next
  case (Cons x xs)
  from Cons.prems(1) obtain u where u: "f x s = Inr u" and rest: "foldE f xs u = Inr s'"
    by (auto simp: bindE_Inr_iff)
  show ?case
  proof (cases "e = x")
    case True
    then show ?thesis using u Cons.prems(2) by blast
  next
    case False
    then have "e \<in> set xs" using Cons.prems(3) by simp
    moreover have "P u" using assms(3)[OF Cons.prems(2) u] .
    ultimately show ?thesis using Cons.IH[OF rest] by blast
  qed
qed

lemma flush_timer_config:
  assumes "flush_timer k tk x s = Inr s'"
  shows "MetricAggregator.FlushInterval (fst s') = MetricAggregator.FlushInterval (fst s)"
    and "PercentThresholds (fst s') = PercentThresholds (fst s)"
  using assms
  by (cases s; auto simp: flush_timer_def bindE_Inr_iff split: if_splits)+

lemma flush_timer_Inr_finalises:
  assumes "flush_timer k tk x s = Inr s'" "Timer.Values x \<noteq> []"
  shows "\<exists>t'. finalize_timer (MetricAggregator.FlushInterval (fst s)) (PercentThresholds (fst s)) x
           = Inr t'"
  using assms by (cases s) (auto simp: flush_timer_def bindE_Inr_iff)

lemma flush_Timers_finalises:
  assumes "wf_nested (Timers b)" and "EachTimer (Timers b) flush_timer (b, n0) = Inr s'"
    and "lookup2 (Timers b) k tk = Some x" and "Timer.Values x \<noteq> []"
  shows "\<exists>t'. finalize_timer (MetricAggregator.FlushInterval b) (PercentThresholds b) x = Inr t'"
proof -
  let ?P = "\<lambda>s :: MetricAggregator \<times> int.
      MetricAggregator.FlushInterval (fst s) = MetricAggregator.FlushInterval b \<and>
      PercentThresholds (fst s) = PercentThresholds b"
  let ?f = "\<lambda>(key, tagsKey, x). flush_timer key tagsKey x"
  have run: "foldE ?f (entries (Timers b)) (b, n0) = Inr s'"
    using assms(2) by (simp add: Each_def)
  have mem: "(k, tk, x) \<in> set (entries (Timers b))"
    using assms(3) entries_iff[OF assms(1)] by simp
  have "\<exists>t t'. ?P t \<and> ?f (k, tk, x) t = Inr t'"
  proof (rule foldE_steps_ok[where P = ?P, OF run _ _ mem])
    show "?P (b, n0)" by simp
  next
    fix e and t t' :: "MetricAggregator \<times> int"
    assume "?P t" "?f e t = Inr t'"
    then show "?P t'" using flush_timer_config[of "fst e" "fst (snd e)" "snd (snd e)" t t']
      by (cases e) auto
  qed
  then obtain t t' where "?P t" "flush_timer k tk x t = Inr t'" by auto
  then show ?thesis using flush_timer_Inr_finalises[OF _ assms(4), of k tk t t'] by simp
qed

lemma flush_Inr_finalises:
  assumes "wf_state a" and "flush a startTime endTime = Inr r"
    and "lookup2 (Timers a) k tk = Some x" and "Timer.Values x \<noteq> []"
  shows "\<exists>t'. finalize_timer (MetricAggregator.FlushInterval a) (PercentThresholds a) x = Inr t'"
proof -
  have wf: "wf_nested (Counters a)" "wf_nested (Timers a)"
    using assms(1) by (simp_all add: wf_state_def)
  from flush_Counters[OF wf(1), of 0] obtain cs n1 where
    1: "EachCounter (Counters a) flush_counter (a, 0) = Inr (a\<lparr>Counters := cs\<rparr>, n1)"
    by blast
  let ?a1 = "a\<lparr>Counters := cs\<rparr>"
  let ?n2 = "fold (\<lambda>(key, gauges) numStats. numStats + int (length gauges)) (Gauges ?a1) n1"
  from assms(2) obtain s2 where
    2: "EachTimer (Timers ?a1) flush_timer (?a1, ?n2) = Inr s2"
    unfolding flush_def 1 bindE_simps prod.case Let_def
    by (auto simp: bindE_Inr_iff)
  have wf1: "wf_nested (Timers ?a1)" using wf(2) by simp
  have l: "lookup2 (Timers ?a1) k tk = Some x" using assms(3) by simp
  from flush_Timers_finalises[OF wf1 2 l assms(4)] show ?thesis by simp
qed

lemma timers_safe_example: "timers_safe example_state"
  by (simp add: timers_safe_def example_state_def NewMetricAggregator_def threshold_safe_upper)

lemma flush_example_returns: "\<exists>a' snap. flush example_state 10 20 = Inr (a', snap)"
  by (rule flush_total[OF wf_state_example timers_safe_example])

lemma timers_safe_upper:
  assumes "\<forall>p \<in> set (PercentThresholds a). 0 \<le> p \<and> p \<le> 100"
  shows "timers_safe a"
  using assms by (auto simp: timers_safe_def threshold_safe_upper)

lemmas flush_eval =
  flush_def flush_finish_def flush_counter_def flush_timer_def Each_def entries_def assign2_def
  store2_def lookup2_def float64_def CopyCounters_def CopyTimers_def CopyGauges_def CopySets_def
  Sub_def maxDuration_def minDuration_def


lemma series_iff:
  assumes "wf_nested m"
  shows "(k, tk) \<in> series m \<longleftrightarrow> lookup2 m k tk \<noteq> None"
proof -
  have "(k, tk) \<in> series m \<longleftrightarrow> (\<exists>x. (k, tk, x) \<in> set (entries m))"
    by (force simp: series_def key_of_def)
  then show ?thesis using entries_iff[OF assms] by auto
qed

lemma series_eqI:
  assumes "wf_nested m" "wf_nested m'"
    and "\<And>k tk. lookup2 m' k tk = None \<longleftrightarrow> lookup2 m k tk = None"
  shows "series m' = series m"
proof -
  have "\<And>p. p \<in> series m' \<longleftrightarrow> p \<in> series m"
  proof -
    fix p :: "string \<times> string"
    obtain k tk where p: "p = (k, tk)" by (cases p)
    show "p \<in> series m' \<longleftrightarrow> p \<in> series m"
      unfolding p series_iff[OF assms(1)] series_iff[OF assms(2)] using assms(3) by simp
  qed
  then show ?thesis by blast
qed

lemma flush_timer_result_Some:
  assumes "wf_state a" and "flush a startTime endTime = Inr r"
    and "lookup2 (Timers a) k tk = Some x"
  shows "flush_timer_result a x =
           (if Timer.Values x = [] then Some x
            else Some (projr (finalize_timer (MetricAggregator.FlushInterval a)
                                (PercentThresholds a) x)))
         \<and> (Timer.Values x \<noteq> [] \<longrightarrow>
              (\<exists>ps. projr (finalize_timer (MetricAggregator.FlushInterval a)
                                (PercentThresholds a) x) =
                     timer_stats (MetricAggregator.FlushInterval a) x ps))"
proof (cases "Timer.Values x = []")
  case True
  then show ?thesis by (simp add: flush_timer_result_def)
next
  case False
  from flush_Inr_finalises[OF assms False] obtain t' where
    f: "finalize_timer (MetricAggregator.FlushInterval a) (PercentThresholds a) x = Inr t'"
    by blast
  from finalize_timer_stats[OF False f] obtain ps where
    "t' = timer_stats (MetricAggregator.FlushInterval a) x ps" by blast
  then show ?thesis using False f by (auto simp: flush_timer_result_def)
qed



lemma flush_series:
  assumes "wf_state a" and "flush a startTime endTime = Inr (a', snap)"
  shows "series (Counters a') = series (Counters a)"
    and "series (Timers a') = series (Timers a)"
    and "series (Gauges a') = series (Gauges a)"
    and "series (Sets a') = series (Sets a)"
proof -
  have wf: "wf_nested (Counters a)" "wf_nested (Timers a)"
    using assms(1) by (simp_all add: wf_state_def)
  from flush_result[OF assms] obtain cs ts stats where
    a': "a' = a\<lparr>Counters := cs, Timers := ts, Stats := stats\<rparr>"
    and w: "wf_nested cs" "wf_nested ts"
    and lcs: "\<And>k tk. lookup2 cs k tk = map_option (flush_counter_result a) (lookup2 (Counters a) k tk)"
    and lts: "\<And>k tk. lookup2 ts k tk =
              (case lookup2 (Timers a) k tk of None \<Rightarrow> None | Some x \<Rightarrow> flush_timer_result a x)"
    by blast
  show "series (Counters a') = series (Counters a)"
    unfolding a' by (rule series_eqI[OF wf(1)]) (simp_all add: w lcs)
  show "series (Timers a') = series (Timers a)"
    unfolding a'
  proof (rule series_eqI[OF wf(2)])
    show "wf_nested (Timers (a\<lparr>Counters := cs, Timers := ts, Stats := stats\<rparr>))"
      using w by simp
  next
    fix k tk
    show "lookup2 (Timers (a\<lparr>Counters := cs, Timers := ts, Stats := stats\<rparr>)) k tk = None
          \<longleftrightarrow> lookup2 (Timers a) k tk = None"
    proof (cases "lookup2 (Timers a) k tk")
      case None
      then show ?thesis by (simp add: lts)
    next
      case (Some x)
      from flush_timer_result_Some[OF assms Some] have "flush_timer_result a x \<noteq> None"
        by (auto split: if_splits)
      then show ?thesis using Some by (simp add: lts)
    qed
  qed
  show "series (Gauges a') = series (Gauges a)" "series (Sets a') = series (Sets a)"
    by (simp_all add: a')
qed

lemma Reset_removes_expired:
  assumes "wf_state a"
  shows "\<exists>a'. Reset a now = Inr a' \<and>
    (\<forall>k tk c. lookup2 (Counters a) k tk = Some c \<and> (k, tk) \<notin> series (Counters a') \<longrightarrow>
       isExpired a now (Counter.Timestamp c)) \<and>
    (\<forall>k tk t. lookup2 (Timers a) k tk = Some t \<and> (k, tk) \<notin> series (Timers a') \<longrightarrow>
       isExpired a now (Timer.Timestamp t)) \<and>
    (\<forall>k tk g. lookup2 (Gauges a) k tk = Some g \<and> (k, tk) \<notin> series (Gauges a') \<longrightarrow>
       isExpired a now (Gauge.Timestamp g)) \<and>
    (\<forall>k tk s. lookup2 (Sets a) k tk = Some s \<and> (k, tk) \<notin> series (Sets a') \<longrightarrow>
       isExpired a now (Set.Timestamp s))"
proof -
  from Reset_result[OF assms, of now] obtain cs ts ss gs where
    run: "Reset a now = Inr (a\<lparr>MetricMap.NumStats := 0, Counters := cs, Timers := ts,
            Sets := ss, Gauges := gs\<rparr>)"
    and w: "wf_nested cs" "wf_nested ts" "wf_nested ss" "wf_nested gs"
    and l: "\<And>k tk. lookup2 cs k tk =
        (case lookup2 (Counters a) k tk of None \<Rightarrow> None | Some x \<Rightarrow> reset_counter_result a now x)"
      "\<And>k tk. lookup2 ts k tk =
        (case lookup2 (Timers a) k tk of None \<Rightarrow> None | Some x \<Rightarrow> reset_timer_result a now x)"
      "\<And>k tk. lookup2 ss k tk =
        (case lookup2 (Sets a) k tk of None \<Rightarrow> None | Some x \<Rightarrow> reset_set_result a now x)"
      "\<And>k tk. lookup2 gs k tk =
        (case lookup2 (Gauges a) k tk of None \<Rightarrow> None | Some x \<Rightarrow> reset_gauge_result a now x)"
    by blast
  show ?thesis
    unfolding run
    by (intro exI conjI refl)
      (auto simp: series_iff w l reset_counter_result_def reset_timer_result_def
        reset_set_result_def reset_gauge_result_def split: if_splits)
qed

lemma receiveMetric_keeps:
  "lookup2 (Counters a) k tk \<noteq> None \<Longrightarrow> lookup2 (Counters (receiveMetric TS a m now w)) k tk \<noteq> None"
  "lookup2 (Timers a) k tk \<noteq> None \<Longrightarrow> lookup2 (Timers (receiveMetric TS a m now w)) k tk \<noteq> None"
  "lookup2 (Gauges a) k tk \<noteq> None \<Longrightarrow> lookup2 (Gauges (receiveMetric TS a m now w)) k tk \<noteq> None"
  "lookup2 (Sets a) k tk \<noteq> None \<Longrightarrow> lookup2 (Sets (receiveMetric TS a m now w)) k tk \<noteq> None"
  by (simp_all add: receiveMetric_Counters receiveMetric_Timers receiveMetric_Gauges
      receiveMetric_Sets)









section \<open>Further facts\<close>


lemma threshold_unsafe_example: "\<not> threshold_safe 5 (- 90)"
  by (simp add: threshold_safe_def numInThreshold_of_def round'_def int_of_float_def)

lemma pct_step_single:
  "pct_step 1 vals cv css pct s = Inr (pct_emit pct 1 s)"
  by (simp add: pct_step_def numInThreshold_of_def)

lemma pct_step_100:
  assumes "int (length vals) = cnt" "int (length cv) = cnt" "int (length css) = cnt" "1 < cnt"
  shows "pct_step cnt vals cv css 100 s =
     Inr (pct_emit 100 cnt
            (s\<lparr>thresholdBoundary := last vals, sum_v := last cv, sumSquares := last css,
               mean := last cv / real_of_int cnt\<rparr>))"
proof -
  have n: "numInThreshold_of cnt 100 = cnt"
    by (rule numInThreshold_of_full[OF assms(4)]) simp
  have ne: "vals \<noteq> []" "cv \<noteq> []" "css \<noteq> []" using assms by auto
  have i: "index vals (cnt - 1) = Inr (last vals)" "index cv (cnt - 1) = Inr (last cv)"
    "index css (cnt - 1) = Inr (last css)"
    using index_last[OF ne(1)] index_last[OF ne(2)] index_last[OF ne(3)] assms by simp_all
  show ?thesis
    using assms(4) by (simp add: pct_step_def n Let_def pct_update_def i)
qed

lemma Sprintf_d_100: "Sprintf_d (int_of_float 100) = ''100''"
  by (simp add: Sprintf_d_def int_of_float_def show_nat.simps digit_def)

lemma Sprintf_d_minus_100: "Sprintf_d (int_of_float (- 100)) = ''-100''"
  by (simp add: Sprintf_d_def int_of_float_def show_nat.simps digit_def)

text \<open>
  A threshold of absolute value 100 where the loop can index: the threshold 100 on any
  timer with samples, and the threshold -100 on a timer with one sample.
\<close>

lemma full_upper_threshold:
  assumes "Timer.Values t = vs" and "vs \<noteq> []"
  shows "\<exists>t'. finalize_timer fi [100] t = Inr t' \<and>
           map_of (Timer.Percentiles t') ''count_100'' = Some (real (length vs)) \<and>
           map_of (Timer.Percentiles t') ''sum_100'' = Some (sum_list vs) \<and>
           map_of (Timer.Percentiles t') ''upper_100'' = Some (last (sort vs))"
proof -
  have ne: "Timer.Values t \<noteq> []" using assms by simp
  from finalize_timer_eq[OF ne, of fi "[100]"] obtain cv css where
    l: "int (length cv) = int (length (Timer.Values t))"
       "int (length css) = int (length (Timer.Values t))"
    and last: "last cv = sum_list (Timer.Values t)"
    and eq: "finalize_timer fi [100] t =
       bindE (pct_loop (int (length (Timer.Values t))) (sort (Timer.Values t)) cv css [100]
                (pct_init t))
         (\<lambda>s. Inr (timer_stats fi t (percentiles s)))"
    by blast
  show ?thesis
  proof (cases "1 < length vs")
    case True
    have "pct_step (int (length (Timer.Values t))) (sort (Timer.Values t)) cv css 100 (pct_init t) =
      Inr (pct_emit 100 (int (length (Timer.Values t)))
            ((pct_init t)\<lparr>thresholdBoundary := last (sort (Timer.Values t)), sum_v := last cv,
               sumSquares := last css,
               mean := last cv / real_of_int (int (length (Timer.Values t)))\<rparr>))"
      by (rule pct_step_100) (use l True assms in simp_all)
    then show ?thesis
      unfolding eq using assms(1) last
      by (simp add: timer_stats_def pct_emit_def Sprintf_d_100 Percentiles_Set_def Let_def
          update_conv')
  next
    case False
    then have one: "length vs = 1" using assms(2) by (cases vs) auto
    then obtain v where vs: "vs = [v]" by (cases vs) auto
    show ?thesis
      unfolding eq using assms(1)
      by (simp add: vs pct_step_single timer_stats_def pct_emit_def Sprintf_d_100
          Percentiles_Set_def Let_def update_conv' pct_init_def)
  qed
qed

lemma full_lower_threshold_single:
  assumes "Timer.Values t = [v]"
  shows "\<exists>t'. finalize_timer fi [- 100] t = Inr t' \<and>
           map_of (Timer.Percentiles t') ''count_-100'' = Some 1 \<and>
           map_of (Timer.Percentiles t') ''sum_-100'' = Some v \<and>
           map_of (Timer.Percentiles t') ''lower_-100'' = Some v"
proof -
  have ne: "Timer.Values t \<noteq> []" using assms by simp
  from finalize_timer_eq[OF ne, of fi "[- 100]"] obtain cv css where
    eq: "finalize_timer fi [- 100] t =
       bindE (pct_loop (int (length (Timer.Values t))) (sort (Timer.Values t)) cv css [- 100]
                (pct_init t))
         (\<lambda>s. Inr (timer_stats fi t (percentiles s)))"
    by blast
  show ?thesis
    unfolding eq using assms
    by (simp add: pct_step_single timer_stats_def pct_emit_def Sprintf_d_minus_100
        Percentiles_Set_def Let_def update_conv' pct_init_def)
qed

lemma Reset_wf:
  assumes "wf_state a" and "Reset a now = Inr a'"
  shows "wf_state a'"
  using Reset_result[OF assms(1), of now] assms(2) by (auto simp: wf_state_def)

lemma flush_wf:
  assumes "wf_state a" and "flush a startTime endTime = Inr (a', snap)"
  shows "wf_state a'"
  using flush_result[OF assms] assms(1) by (auto simp: wf_state_def)

lemma increments_eq:
  "increments TS name tagsKey queue = map int64 (increment_values TS name tagsKey queue)"
proof (induction queue)
  case Nil
  show ?case by simp
next
  case (Cons e queue)
  obtain m now w where e: "e = (m, now, w)" by (cases e)
  show ?case by (simp add: e Cons.IH)
qed

lemma int64_of_int:
  assumes "- (2 ^ 63) \<le> k" "k < 2 ^ 63"
  shows "int64 (real_of_int k) = word_of_int k"
  using assms by (simp add: int64_def)

lemma int64_out_of_range: "int64 10000000000000000000 = MinInt64"
  by (simp add: int64_def int_of_float_def)

section \<open>The claims\<close>


text \<open>
  Claim C7. After \<^verbatim>\<open>Reset(now)\<close> on a well-formed state, a counter, timer or set series
  that has not expired holds the composite literal that keeps only its interval (counter
  value 0, timer values empty, set values an empty map); a gauge series that has not
  expired holds the record it held before; an expired series of any kind is absent; and
  \<^verbatim>\<open>Reset\<close> does not panic.
\<close>

theorem Reset_survivors:
  assumes "wf_state a"
  shows "\<exists>a'. Reset a now = Inr a' \<and>
     (\<forall>k tk. lookup2 (Counters a') k tk =
        (case lookup2 (Counters a) k tk of None \<Rightarrow> None
         | Some c \<Rightarrow> if isExpired a now (Counter.Timestamp c) then None
                      else Some (Counter_lit (Counter.Interval c)))) \<and>
     (\<forall>k tk. lookup2 (Timers a') k tk =
        (case lookup2 (Timers a) k tk of None \<Rightarrow> None
         | Some t \<Rightarrow> if isExpired a now (Timer.Timestamp t) then None
                      else Some (Timer_lit (Timer.Interval t)))) \<and>
     (\<forall>k tk. lookup2 (Sets a') k tk =
        (case lookup2 (Sets a) k tk of None \<Rightarrow> None
         | Some s \<Rightarrow> if isExpired a now (Set.Timestamp s) then None
                      else Some (Set_lit (Set.Interval s) []))) \<and>
     (\<forall>k tk. lookup2 (Gauges a') k tk =
        (case lookup2 (Gauges a) k tk of None \<Rightarrow> None
         | Some g \<Rightarrow> if isExpired a now (Gauge.Timestamp g) then None else Some g))"
proof -
  from Reset_result[OF assms, of now] obtain cs ts ss gs where
    run: "Reset a now = Inr (a\<lparr>MetricMap.NumStats := 0, Counters := cs, Timers := ts,
            Sets := ss, Gauges := gs\<rparr>)"
    and l: "\<forall>k tk. lookup2 cs k tk =
        (case lookup2 (Counters a) k tk of None \<Rightarrow> None | Some x \<Rightarrow> reset_counter_result a now x)"
      "\<forall>k tk. lookup2 ts k tk =
        (case lookup2 (Timers a) k tk of None \<Rightarrow> None | Some x \<Rightarrow> reset_timer_result a now x)"
      "\<forall>k tk. lookup2 ss k tk =
        (case lookup2 (Sets a) k tk of None \<Rightarrow> None | Some x \<Rightarrow> reset_set_result a now x)"
      "\<forall>k tk. lookup2 gs k tk =
        (case lookup2 (Gauges a) k tk of None \<Rightarrow> None | Some x \<Rightarrow> reset_gauge_result a now x)"
    by blast
  show ?thesis
    unfolding run using l
    by (simp add: reset_counter_result_def reset_timer_result_def reset_set_result_def
        reset_gauge_result_def split: option.splits)
qed

theorem Reset_survivors_witness:
  "wf_state example_state \<and>
   (\<exists>a'. Reset example_state 2500000000 = Inr a' \<and>
      lookup2 (Counters a') ''hits'' [] = Some (Counter_lit 1000000000) \<and>
      lookup2 (Timers a') ''latency'' [] = Some (Timer_lit 1000000000) \<and>
      lookup2 (Sets a') ''users'' [] = Some (Set_lit 1000000000 []) \<and>
      lookup2 (Gauges a') ''load'' [] = Some (NewGauge 1000000000 1000000000 7))"
proof -
  from Reset_survivors[OF wf_state_example, of 2500000000] obtain a' where
    run: "Reset example_state 2500000000 = Inr a'"
    and c: "\<And>k tk. lookup2 (Counters a') k tk =
        (case lookup2 (Counters example_state) k tk of None \<Rightarrow> None
         | Some c \<Rightarrow> if isExpired example_state 2500000000 (Counter.Timestamp c) then None
                      else Some (Counter_lit (Counter.Interval c)))"
    and t: "\<And>k tk. lookup2 (Timers a') k tk =
        (case lookup2 (Timers example_state) k tk of None \<Rightarrow> None
         | Some t \<Rightarrow> if isExpired example_state 2500000000 (Timer.Timestamp t) then None
                      else Some (Timer_lit (Timer.Interval t)))"
    and s: "\<And>k tk. lookup2 (Sets a') k tk =
        (case lookup2 (Sets example_state) k tk of None \<Rightarrow> None
         | Some s \<Rightarrow> if isExpired example_state 2500000000 (Set.Timestamp s) then None
                      else Some (Set_lit (Set.Interval s) []))"
    and g: "\<And>k tk. lookup2 (Gauges a') k tk =
        (case lookup2 (Gauges example_state) k tk of None \<Rightarrow> None
         | Some g \<Rightarrow> if isExpired example_state 2500000000 (Gauge.Timestamp g) then None
                      else Some g)"
    by blast
  have ne: "\<not> isExpired example_state 2500000000 1000000000"
    by (simp add: isExpired_def example_state_def NewMetricAggregator_def Sub_def
        maxDuration_def minDuration_def)
  have l: "lookup2 (Counters example_state) ''hits'' [] = Some (NewCounter 1000000000 1000000000 3)"
    "lookup2 (Timers example_state) ''latency'' [] = Some (NewTimer 1000000000 1000000000 [5, 1, 3])"
    "lookup2 (Sets example_state) ''users'' [] =
       Some (NewSet 1000000000 1000000000 [(''a'', 2), (''b'', 1)])"
    "lookup2 (Gauges example_state) ''load'' [] = Some (NewGauge 1000000000 1000000000 7)"
    by (simp_all add: example_state_def NewMetricAggregator_def lookup2_def)
  have "lookup2 (Counters a') ''hits'' [] = Some (Counter_lit 1000000000)"
    using ne by (simp add: c l NewCounter_def Counter_lit_def)
  moreover have "lookup2 (Timers a') ''latency'' [] = Some (Timer_lit 1000000000)"
    using ne by (simp add: t l NewTimer_def Timer_lit_def)
  moreover have "lookup2 (Sets a') ''users'' [] = Some (Set_lit 1000000000 [])"
    using ne by (simp add: s l NewSet_def Set_lit_def)
  moreover have "lookup2 (Gauges a') ''load'' [] = Some (NewGauge 1000000000 1000000000 7)"
    using ne by (simp add: g l NewGauge_def)
  ultimately show ?thesis using run wf_state_example by blast
qed

text \<open>
  Claim C5 (amended). A fold of a record whose kind is none of the four leaves the four
  maps and every statistic but \<open>LastMessage\<close> as they were; \<open>LastMessage\<close> is set to the
  wall-clock reading, as after every fold.
\<close>

theorem unknown_kind_sets_LastMessage_only:
  assumes "Type m = OTHER n"
  shows "receiveMetric TS a m now w = a\<lparr>Stats := (Stats a)\<lparr>LastMessage := w\<rparr>\<rparr>"
  using assms by (simp add: receiveMetric_def Let_def)

theorem unknown_kind_sets_LastMessage_only_witness:
  "Type (example_metric ''x'' (OTHER 0) 1) = OTHER 0 \<and>
   receiveMetric concat example_state (example_metric ''x'' (OTHER 0) 1) 5 42 =
     example_state\<lparr>Stats := (Stats example_state)\<lparr>LastMessage := 42\<rparr>\<rparr>"
  using unknown_kind_sets_LastMessage_only[of "example_metric ''x'' (OTHER 0) 1" 0 concat
      example_state 5 42]
  by (simp add: example_metric_def)

theorem unknown_kind_mutates_state:
  "receiveMetric concat example_state (example_metric ''x'' (OTHER 0) 1) 5 42 \<noteq> example_state"
proof
  assume "receiveMetric concat example_state (example_metric ''x'' (OTHER 0) 1) 5 42 = example_state"
  then have "LastMessage (Stats (receiveMetric concat example_state
      (example_metric ''x'' (OTHER 0) 1) 5 42)) = LastMessage (Stats example_state)"
    by simp
  then show False
    by (simp add: receiveMetric_def Let_def example_metric_def example_state_def
        NewMetricAggregator_def)
qed

text \<open>
  Claim C4 (amended). For each of the four kinds, one fold does this to the timestamp of a
  series: a fold that creates the series stamps the new record with its \<open>now\<close>, and a fold
  into a series that exists leaves the timestamp of the series as it was; it does not
  advance it to its \<open>now\<close>.
\<close>

theorem receiveMetric_timestamp:
  "map_option Counter.Timestamp (lookup2 (Counters (receiveMetric TS a m now w)) k tk) =
     (case lookup2 (Counters a) k tk of Some c \<Rightarrow> Some (Counter.Timestamp c)
      | None \<Rightarrow> if Type m = COUNTER \<and> k = Name m \<and> tk = TS (Tags m) then Some now else None) \<and>
   map_option Gauge.Timestamp (lookup2 (Gauges (receiveMetric TS a m now w)) k tk) =
     (case lookup2 (Gauges a) k tk of Some g \<Rightarrow> Some (Gauge.Timestamp g)
      | None \<Rightarrow> if Type m = GAUGE \<and> k = Name m \<and> tk = TS (Tags m) then Some now else None) \<and>
   map_option Timer.Timestamp (lookup2 (Timers (receiveMetric TS a m now w)) k tk) =
     (case lookup2 (Timers a) k tk of Some t \<Rightarrow> Some (Timer.Timestamp t)
      | None \<Rightarrow> if Type m = TIMER \<and> k = Name m \<and> tk = TS (Tags m) then Some now else None) \<and>
   map_option Set.Timestamp (lookup2 (Sets (receiveMetric TS a m now w)) k tk) =
     (case lookup2 (Sets a) k tk of Some s \<Rightarrow> Some (Set.Timestamp s)
      | None \<Rightarrow> if Type m = SET \<and> k = Name m \<and> tk = TS (Tags m) then Some now else None)"
proof (intro conjI)
  show "map_option Counter.Timestamp (lookup2 (Counters (receiveMetric TS a m now w)) k tk) =
     (case lookup2 (Counters a) k tk of Some c \<Rightarrow> Some (Counter.Timestamp c)
      | None \<Rightarrow> if Type m = COUNTER \<and> k = Name m \<and> tk = TS (Tags m) then Some now else None)"
    by (simp add: receiveMetric_Counters NewCounter_def split: option.splits)
  show "map_option Gauge.Timestamp (lookup2 (Gauges (receiveMetric TS a m now w)) k tk) =
     (case lookup2 (Gauges a) k tk of Some g \<Rightarrow> Some (Gauge.Timestamp g)
      | None \<Rightarrow> if Type m = GAUGE \<and> k = Name m \<and> tk = TS (Tags m) then Some now else None)"
    by (simp add: receiveMetric_Gauges NewGauge_def split: option.splits)
  show "map_option Timer.Timestamp (lookup2 (Timers (receiveMetric TS a m now w)) k tk) =
     (case lookup2 (Timers a) k tk of Some t \<Rightarrow> Some (Timer.Timestamp t)
      | None \<Rightarrow> if Type m = TIMER \<and> k = Name m \<and> tk = TS (Tags m) then Some now else None)"
    by (simp add: receiveMetric_Timers NewTimer_def split: option.splits)
  show "map_option Set.Timestamp (lookup2 (Sets (receiveMetric TS a m now w)) k tk) =
     (case lookup2 (Sets a) k tk of Some s \<Rightarrow> Some (Set.Timestamp s)
      | None \<Rightarrow> if Type m = SET \<and> k = Name m \<and> tk = TS (Tags m) then Some now else None)"
    by (simp add: receiveMetric_Sets NewSet_def split: option.splits)
qed

theorem receiveMetric_timestamp_witness:
  "map_option Counter.Timestamp
     (lookup2 (Counters (receiveMetric concat example_state (example_metric ''hits'' COUNTER 1)
        2000000000 2000000000)) ''hits'' []) = Some 1000000000 \<and>
   map_option Counter.Timestamp
     (lookup2 (Counters (receiveMetric concat example_state (example_metric ''new'' COUNTER 1)
        2000000000 2000000000)) ''new'' []) = Some 2000000000"
  using receiveMetric_timestamp[of concat example_state "example_metric ''hits'' COUNTER 1"
      2000000000 2000000000 "''hits''" "[]"]
    receiveMetric_timestamp[of concat example_state "example_metric ''new'' COUNTER 1"
      2000000000 2000000000 "''new''" "[]"]
  by (simp add: example_metric_def example_state_def NewMetricAggregator_def lookup2_def
      NewCounter_def Counter_lit_def)

theorem refold_keeps_timestamp:
  "map_option Counter.Timestamp
     (lookup2 (Counters
        (receiveMetric concat
           (receiveMetric concat (NewMetricAggregator [90] 1000000000 0 4)
              (example_metric ''hits'' COUNTER 1) 5000000000 5000000000)
           (example_metric ''hits'' COUNTER 1) 7000000000 7000000000))
        ''hits'' []) = Some 5000000000"
  by (simp add: receiveMetric_Counters example_metric_def NewMetricAggregator_def
      NewCounter_def Counter_lit_def)

text \<open>
  Claim C2 (amended). In the expiry scenario with an expiry interval of 2 s, a reset at
  \<open>t0 + 3 s\<close> removes both series: the second fold has not advanced the timestamp of the
  series it went into. With an expiry interval of 0 the reset removes neither, and both
  hold the zero-state record.
\<close>

theorem expiry_scenario_reset:
  assumes "Type m1 = COUNTER" "Type m2 = COUNTER"
    and "(Name m1, TS (Tags m1)) \<noteq> (Name m2, TS (Tags m2))"
  shows "(\<exists>a'. Reset (expiry_scenario TS 2000000000 m1 m2 t0) (t0 + 3000000000) = Inr a' \<and>
            lookup2 (Counters a') (Name m1) (TS (Tags m1)) = None \<and>
            lookup2 (Counters a') (Name m2) (TS (Tags m2)) = None) \<and>
         (\<exists>a'. Reset (expiry_scenario TS 0 m1 m2 t0) (t0 + 3000000000) = Inr a' \<and>
            lookup2 (Counters a') (Name m1) (TS (Tags m1)) = Some (Counter_lit 1000000000) \<and>
            lookup2 (Counters a') (Name m2) (TS (Tags m2)) = Some (Counter_lit 1000000000))"
proof -
  have sub: "Sub (t0 + 3000000000) t0 = 3000000000"
    by (rule Sub_small) simp
  have part: "\<exists>a'. Reset (expiry_scenario TS e m1 m2 t0) (t0 + 3000000000) = Inr a' \<and>
            lookup2 (Counters a') (Name m1) (TS (Tags m1)) =
              (if e \<noteq> 0 \<and> 3000000000 > e then None else Some (Counter_lit 1000000000)) \<and>
            lookup2 (Counters a') (Name m2) (TS (Tags m2)) =
              (if e \<noteq> 0 \<and> 3000000000 > e then None else Some (Counter_lit 1000000000))" for e
  proof -
    let ?a = "expiry_scenario TS e m1 m2 t0"
    note f = expiry_scenario_facts[OF assms, of e t0]
    from f(3) obtain c1 where c1: "lookup2 (Counters ?a) (Name m1) (TS (Tags m1)) = Some c1"
      "Counter.Timestamp c1 = t0" "Counter.Interval c1 = 1000000000" by blast
    from f(4) obtain c2 where c2: "lookup2 (Counters ?a) (Name m2) (TS (Tags m2)) = Some c2"
      "Counter.Timestamp c2 = t0" "Counter.Interval c2 = 1000000000" by blast
    from Reset_result[OF f(1), of "t0 + 3000000000"] obtain cs ts ss gs where
      run: "Reset ?a (t0 + 3000000000) = Inr (?a\<lparr>MetricMap.NumStats := 0, Counters := cs,
              Timers := ts, Sets := ss, Gauges := gs\<rparr>)"
      and l: "\<And>k tk. lookup2 cs k tk =
          (case lookup2 (Counters ?a) k tk of None \<Rightarrow> None
           | Some x \<Rightarrow> reset_counter_result ?a (t0 + 3000000000) x)"
      by blast
    have "lookup2 cs (Name m1) (TS (Tags m1)) =
              (if e \<noteq> 0 \<and> 3000000000 > e then None else Some (Counter_lit 1000000000))"
      by (simp add: l c1 reset_counter_result_def isExpired_def f(2) sub)
    moreover have "lookup2 cs (Name m2) (TS (Tags m2)) =
              (if e \<noteq> 0 \<and> 3000000000 > e then None else Some (Counter_lit 1000000000))"
      by (simp add: l c2 reset_counter_result_def isExpired_def f(2) sub)
    ultimately show ?thesis using run by simp
  qed
  show ?thesis using part[of 2000000000] part[of 0] by simp
qed

theorem expiry_scenario_reset_witness:
  "Type (example_metric ''a'' COUNTER 1) = COUNTER \<and>
   Type (example_metric ''b'' COUNTER 1) = COUNTER \<and>
   (Name (example_metric ''a'' COUNTER 1), concat (Tags (example_metric ''a'' COUNTER 1))) \<noteq>
   (Name (example_metric ''b'' COUNTER 1), concat (Tags (example_metric ''b'' COUNTER 1))) \<and>
   (\<exists>a'. Reset (expiry_scenario concat 2000000000 (example_metric ''a'' COUNTER 1)
              (example_metric ''b'' COUNTER 1) 0) 3000000000 = Inr a' \<and>
          lookup2 (Counters a') ''a'' [] = None \<and> lookup2 (Counters a') ''b'' [] = None) \<and>
   (\<exists>a'. Reset (expiry_scenario concat 0 (example_metric ''a'' COUNTER 1)
              (example_metric ''b'' COUNTER 1) 0) 3000000000 = Inr a' \<and>
          lookup2 (Counters a') ''a'' [] = Some (Counter_lit 1000000000) \<and>
          lookup2 (Counters a') ''b'' [] = Some (Counter_lit 1000000000))"
  using expiry_scenario_reset[of "example_metric ''a'' COUNTER 1" "example_metric ''b'' COUNTER 1"
      concat 0]
  by (simp add: example_metric_def)

theorem refreshed_series_is_evicted:
  "Reset (expiry_scenario concat 2000000000 (example_metric ''a'' COUNTER 1)
      (example_metric ''b'' COUNTER 1) 0) 3000000000 =
   Inr ((expiry_scenario concat 2000000000 (example_metric ''a'' COUNTER 1)
      (example_metric ''b'' COUNTER 1) 0)\<lparr>MetricMap.NumStats := 0, Counters := []\<rparr>)"
  by (simp add: expiry_scenario_def example_metric_def receiveMetric_def NewMetricAggregator_def
      store2_def NewCounter_def Counter_lit_def int64_def int_of_float_def Let_def Reset_def
      Each_def entries_def reset_counter_def isExpired_def Sub_def maxDuration_def
      minDuration_def delete2_def)

text \<open>
  Claim C8. A timer with samples \<open>vs\<close>, at least one, is finalised with
  \<open>sum = \<Sum> v\<close>, \<open>sum_squares = \<Sum> v\<^sup>2\<close>, \<open>mean = sum / n\<close>,
  \<open>stddev = sqrt (\<Sum> (v - mean)\<^sup>2 / n)\<close> and the median of the sorted samples (the mean of
  the two middle ones when \<open>n\<close> is even, the middle one when \<open>n\<close> is odd). The finalisation
  returns for every list of thresholds between 0 and 100, and whenever it returns the
  statistics are these.
\<close>

theorem finalize_timer_statistics:
  assumes "Timer.Values t = vs" and "vs \<noteq> []"
  shows "((\<forall>p \<in> set pcts. 0 \<le> p \<and> p \<le> 100) \<longrightarrow> (\<exists>t'. finalize_timer fi pcts t = Inr t')) \<and>
         (\<forall>t'. finalize_timer fi pcts t = Inr t' \<longrightarrow>
            Timer.Sum t' = sum_list vs \<and>
            Timer.SumSquares t' = (\<Sum>v\<leftarrow>vs. v\<^sup>2) \<and>
            Timer.Mean t' = sum_list vs / real (length vs) \<and>
            Timer.StdDev t' = sqrt ((\<Sum>v\<leftarrow>vs. (v - Timer.Mean t')\<^sup>2) / real (length vs)) \<and>
            Timer.Median t' =
              (if even (length vs)
               then (sort vs ! (length vs div 2 - 1) + sort vs ! (length vs div 2)) / 2
               else sort vs ! (length vs div 2)))"
proof (intro conjI impI allI)
  assume "\<forall>p \<in> set pcts. 0 \<le> p \<and> p \<le> 100"
  then have "\<forall>p \<in> set pcts. threshold_safe (int (length (Timer.Values t))) p"
    by (simp add: threshold_safe_upper)
  then show "\<exists>t'. finalize_timer fi pcts t = Inr t'"
    using finalize_timer_Inr_iff[of t fi pcts] assms by simp
next
  fix t' assume r: "finalize_timer fi pcts t = Inr t'"
  from finalize_timer_stats[OF _ r] assms obtain ps where t': "t' = timer_stats fi t ps"
    by auto
  show "Timer.Sum t' = sum_list vs"
    and "Timer.SumSquares t' = (\<Sum>v\<leftarrow>vs. v\<^sup>2)"
    and "Timer.Mean t' = sum_list vs / real (length vs)"
    and "Timer.StdDev t' = sqrt ((\<Sum>v\<leftarrow>vs. (v - Timer.Mean t')\<^sup>2) / real (length vs))"
    and "Timer.Median t' =
              (if even (length vs)
               then (sort vs ! (length vs div 2 - 1) + sort vs ! (length vs div 2)) / 2
               else sort vs ! (length vs div 2))"
    unfolding t' using assms(1) by (simp_all add: timer_stats_def Let_def power2_eq_square)
qed



theorem finalize_timer_statistics_witness:
  "Timer.Values (NewTimer 0 1000000000 [5, 1, 3]) = [5, 1, 3] \<and> [5, 1, 3 :: real] \<noteq> [] \<and>
   (\<exists>t'. finalize_timer 1000000000 [90] (NewTimer 0 1000000000 [5, 1, 3]) = Inr t' \<and>
      Timer.Sum t' = 9 \<and> Timer.SumSquares t' = 35 \<and> Timer.Mean t' = 3 \<and>
      Timer.StdDev t' = sqrt (8 / 3) \<and> Timer.Median t' = 3)"
proof -
  have v: "Timer.Values (NewTimer 0 1000000000 [5, 1, 3]) = [5, 1, 3]"
    by (simp add: NewTimer_def Timer_lit_def)
  have ne: "[5, 1, 3 :: real] \<noteq> []" by simp
  note th = finalize_timer_statistics[OF v ne, of "[90]" 1000000000]
  from th obtain t' where r: "finalize_timer 1000000000 [90] (NewTimer 0 1000000000 [5, 1, 3]) = Inr t'"
    by auto
  from th r have f: "Timer.Sum t' = sum_list [5, 1, 3]"
    "Timer.SumSquares t' = (\<Sum>v\<leftarrow>[5, 1, 3]. v\<^sup>2)"
    "Timer.Mean t' = sum_list [5, 1, 3] / real (length [5, 1, 3 :: real])"
    "Timer.StdDev t' = sqrt ((\<Sum>v\<leftarrow>[5, 1, 3]. (v - Timer.Mean t')\<^sup>2) / real (length [5, 1, 3 :: real]))"
    "Timer.Median t' =
              (if even (length [5, 1, 3 :: real])
               then (sort [5, 1, 3] ! (length [5, 1, 3 :: real] div 2 - 1) +
                     sort [5, 1, 3] ! (length [5, 1, 3 :: real] div 2)) / 2
               else sort [5, 1, 3] ! (length [5, 1, 3 :: real] div 2))"
    by blast+
  have "Timer.Sum t' = 9" using f(1) by simp
  moreover have "Timer.SumSquares t' = 35" using f(2) by simp
  moreover have m: "Timer.Mean t' = 3" using f(3) by simp
  moreover have "Timer.StdDev t' = sqrt (8 / 3)" using f(4) unfolding m by simp
  moreover have "Timer.Median t' = 3" using f(5) by simp
  ultimately show ?thesis using v r by blast
qed

text \<open>
  Claim C1. The threshold \<open>-100\<close> on a timer with at least two samples makes the
  finalisation read \<^verbatim>\<open>cumulativeValues[-1]\<close> (line 117): the flush panics, whatever
  thresholds follow.
\<close>

theorem full_lower_threshold_panics:
  assumes "2 \<le> length (Timer.Values t)"
  shows "finalize_timer fi (- 100 # pcts) t =
           Inl (IndexOutOfRange (- 1) (length (Timer.Values t)))"
proof -
  have ne: "Timer.Values t \<noteq> []" using assms by auto
  from finalize_timer_eq[OF ne, of fi "- 100 # pcts"] obtain cv css where
    l: "int (length cv) = int (length (Timer.Values t))"
       "int (length css) = int (length (Timer.Values t))"
    and eq: "finalize_timer fi (- 100 # pcts) t =
       bindE (pct_loop (int (length (Timer.Values t))) (sort (Timer.Values t)) cv css
                (- 100 # pcts) (pct_init t))
         (\<lambda>s. Inr (timer_stats fi t (percentiles s)))"
    by blast
  have "pct_step (int (length (Timer.Values t))) (sort (Timer.Values t)) cv css (- 100)
          (pct_init t) = Inl (IndexOutOfRange (- 1) (length cv))"
    by (rule pct_step_minus_100) (use l assms in simp_all)
  then show ?thesis using l unfolding eq by simp
qed

theorem full_lower_threshold_panics_witness:
  "2 \<le> length (Timer.Values (NewTimer 0 1000000000 [1, 2])) \<and>
   finalize_timer 1000000000 [- 100] (NewTimer 0 1000000000 [1, 2]) =
     Inl (IndexOutOfRange (- 1) 2)"
  using full_lower_threshold_panics[of "NewTimer 0 1000000000 [1, 2]" 1000000000 "[]"]
  by (simp add: NewTimer_def Timer_lit_def)

text \<open>
  Claim C3 (amended). For a timer whose samples are 1, 2, 3, 4, 5 in any order, with the
  thresholds 90 and -10, the threshold -10 gives \<open>n = 1\<close> and selects the one largest
  sample: \<open>lower_-10 = 5\<close>, \<open>count_-10 = 1\<close>, \<open>sum_-10 = 5\<close>, \<open>sum_squares_-10 = 25\<close>,
  \<open>mean_-10 = 5\<close>.
\<close>

theorem lower_threshold_takes_largest:
  assumes "sort (Timer.Values t) = [1, 2, 3, 4, 5]"
  shows "numInThreshold_of 5 (- 10) = 1 \<and>
         (\<exists>t'. finalize_timer fi [90, - 10] t = Inr t' \<and>
            map_of (Timer.Percentiles t') ''lower_-10'' = Some 5 \<and>
            map_of (Timer.Percentiles t') ''count_-10'' = Some 1 \<and>
            map_of (Timer.Percentiles t') ''sum_-10'' = Some 5 \<and>
            map_of (Timer.Percentiles t') ''sum_squares_-10'' = Some 25 \<and>
            map_of (Timer.Percentiles t') ''mean_-10'' = Some 5)"
proof
  show "numInThreshold_of 5 (- 10) = 1"
    by (simp add: numInThreshold_of_def round'_def int_of_float_def)
  show "\<exists>t'. finalize_timer fi [90, - 10] t = Inr t' \<and>
            map_of (Timer.Percentiles t') ''lower_-10'' = Some 5 \<and>
            map_of (Timer.Percentiles t') ''count_-10'' = Some 1 \<and>
            map_of (Timer.Percentiles t') ''sum_-10'' = Some 5 \<and>
            map_of (Timer.Percentiles t') ''sum_squares_-10'' = Some 25 \<and>
            map_of (Timer.Percentiles t') ''mean_-10'' = Some 5"
    by (simp add: timer_eval assms update_conv')
qed

theorem lower_threshold_takes_largest_witness:
  "sort (Timer.Values (NewTimer 0 1000000000 [3, 1, 5, 2, 4])) = [1, 2, 3, 4, 5] \<and>
   numInThreshold_of 5 (- 10) = 1 \<and>
   (\<exists>t'. finalize_timer 1000000000 [90, - 10] (NewTimer 0 1000000000 [3, 1, 5, 2, 4]) = Inr t' \<and>
      map_of (Timer.Percentiles t') ''lower_-10'' = Some 5 \<and>
      map_of (Timer.Percentiles t') ''count_-10'' = Some 1 \<and>
      map_of (Timer.Percentiles t') ''sum_-10'' = Some 5 \<and>
      map_of (Timer.Percentiles t') ''sum_squares_-10'' = Some 25 \<and>
      map_of (Timer.Percentiles t') ''mean_-10'' = Some 5)"
proof -
  have s: "sort (Timer.Values (NewTimer 0 1000000000 [3, 1, 5, 2, 4])) = [1, 2, 3, 4, 5]"
    by (simp add: NewTimer_def Timer_lit_def)
  show ?thesis
    using lower_threshold_takes_largest[OF s, of 1000000000] s by blast
qed

theorem lower_10_is_not_the_minimum:
  "finalize_timer 1000000000 [90, - 10] (NewTimer 0 1000000000 [1, 2, 3, 4, 5]) =
     Inr \<lparr>Count = 5, PerSecond = 5, Mean = 3, Median = 3, Max = 5, Min = 1,
          StdDev = sqrt 2, Sum = 15, SumSquares = 55, Values = [1, 2, 3, 4, 5],
          Percentiles =
            [(''count_90'', 5), (''mean_90'', 3), (''sum_90'', 15), (''sum_squares_90'', 55),
             (''upper_90'', 5), (''count_-10'', 1), (''mean_-10'', 5), (''sum_-10'', 5),
             (''sum_squares_-10'', 25), (''lower_-10'', 5)],
          Timestamp = 0, Interval = 1000000000\<rparr>"
  by (simp add: timer_eval NewTimer_def Timer_lit_def)

text \<open>
  Claim C6 (amended). A flush that returns writes into the live state: every counter
  record gets its \<open>per_second\<close>, and every timer record with samples is replaced by the
  finalised timer (sorted samples and statistics; interval and timestamp kept). Gauge and
  set records, timers without samples, and the other fields of a counter are left as they
  were.
\<close>

theorem flush_live_state:
  assumes "wf_state a" and "flush a startTime endTime = Inr (a', snap)"
  shows "Gauges a' = Gauges a \<and> Sets a' = Sets a \<and>
    (\<forall>k tk. lookup2 (Counters a') k tk =
       map_option (\<lambda>c. c\<lparr>Counter.PerSecond :=
                           float64 (Counter.Value c) / Seconds (MetricAggregator.FlushInterval a)\<rparr>)
         (lookup2 (Counters a) k tk)) \<and>
    (\<forall>k tk. lookup2 (Timers a) k tk = None \<longrightarrow> lookup2 (Timers a') k tk = None) \<and>
    (\<forall>k tk t. lookup2 (Timers a) k tk = Some t \<longrightarrow>
       (if Timer.Values t = [] then lookup2 (Timers a') k tk = Some t
        else (\<exists>ps. lookup2 (Timers a') k tk =
                Some (timer_stats (MetricAggregator.FlushInterval a) t ps))))"
proof -
  from flush_result[OF assms] obtain cs ts stats where
    a': "a' = a\<lparr>Counters := cs, Timers := ts, Stats := stats\<rparr>"
    and lcs: "\<And>k tk. lookup2 cs k tk = map_option (flush_counter_result a) (lookup2 (Counters a) k tk)"
    and lts: "\<And>k tk. lookup2 ts k tk =
              (case lookup2 (Timers a) k tk of None \<Rightarrow> None | Some x \<Rightarrow> flush_timer_result a x)"
    by blast
  have fc: "flush_counter_result a = (\<lambda>c. c\<lparr>Counter.PerSecond :=
                           float64 (Counter.Value c) / Seconds (MetricAggregator.FlushInterval a)\<rparr>)"
    by (simp add: fun_eq_iff flush_counter_result_def)
  show ?thesis
  proof (intro conjI allI impI)
    show "Gauges a' = Gauges a" "Sets a' = Sets a" by (simp_all add: a')
  next
    fix k tk
    show "lookup2 (Counters a') k tk =
       map_option (\<lambda>c. c\<lparr>Counter.PerSecond :=
                           float64 (Counter.Value c) / Seconds (MetricAggregator.FlushInterval a)\<rparr>)
         (lookup2 (Counters a) k tk)"
      by (simp add: a' lcs fc)
  next
    fix k tk assume "lookup2 (Timers a) k tk = None"
    then show "lookup2 (Timers a') k tk = None" by (simp add: a' lts)
  next
    fix k tk t assume l: "lookup2 (Timers a) k tk = Some t"
    from flush_timer_result_Some[OF assms l]
    show "if Timer.Values t = [] then lookup2 (Timers a') k tk = Some t
        else (\<exists>ps. lookup2 (Timers a') k tk =
                Some (timer_stats (MetricAggregator.FlushInterval a) t ps))"
      by (auto simp: a' lts l)
  qed
qed

theorem flush_live_state_witness:
  "wf_state example_state \<and>
   (\<exists>a' snap. flush example_state 10 20 = Inr (a', snap) \<and>
      Gauges a' = Gauges example_state \<and> Sets a' = Sets example_state \<and>
      lookup2 (Counters a') ''hits'' [] =
        Some ((NewCounter 1000000000 1000000000 3)\<lparr>Counter.PerSecond := 3\<rparr>) \<and>
      (\<exists>ps. lookup2 (Timers a') ''latency'' [] =
         Some (timer_stats 1000000000 (NewTimer 1000000000 1000000000 [5, 1, 3]) ps)))"
proof -
  from flush_example_returns obtain a' snap where
    r: "flush example_state 10 20 = Inr (a', snap)" by blast
  note th = flush_live_state[OF wf_state_example r]
  have fi: "MetricAggregator.FlushInterval example_state = 1000000000"
    by (simp add: example_state_def NewMetricAggregator_def)
  have l: "lookup2 (Counters example_state) ''hits'' [] = Some (NewCounter 1000000000 1000000000 3)"
    "lookup2 (Timers example_state) ''latency'' [] = Some (NewTimer 1000000000 1000000000 [5, 1, 3])"
    by (simp_all add: example_state_def NewMetricAggregator_def lookup2_def)
  have v: "Timer.Values (NewTimer 1000000000 1000000000 [5, 1, 3]) \<noteq> []"
    by (simp add: NewTimer_def Timer_lit_def)
  have "lookup2 (Counters a') ''hits'' [] =
        Some ((NewCounter 1000000000 1000000000 3)\<lparr>Counter.PerSecond := 3\<rparr>)"
    using th l(1) by (simp add: fi NewCounter_def Counter_lit_def float64_def Seconds_def)
  moreover have "\<exists>ps. lookup2 (Timers a') ''latency'' [] =
         Some (timer_stats 1000000000 (NewTimer 1000000000 1000000000 [5, 1, 3]) ps)"
    using th l(2) v unfolding fi by meson
  moreover have "Gauges a' = Gauges example_state" "Sets a' = Sets example_state"
    using th by blast+
  ultimately show ?thesis using r wf_state_example by blast
qed

theorem flush_mutates_live_records:
  "flush example_state 10 20 =
   Inr (example_state
          \<lparr>Counters :=
             [(''hits'', [([], (NewCounter 1000000000 1000000000 3)\<lparr>Counter.PerSecond := 3\<rparr>)])],
           Timers :=
             [(''latency'',
               [([], \<lparr>Count = 3, PerSecond = 3, Mean = 3, Median = 3, Max = 5, Min = 1,
                      StdDev = sqrt (8 / 3), Sum = 9, SumSquares = 35, Values = [1, 3, 5],
                      Percentiles =
                        [(''count_90'', 3), (''mean_90'', 3), (''sum_90'', 9),
                         (''sum_squares_90'', 35), (''upper_90'', 5)],
                      Timestamp = 1000000000, Interval = 1000000000\<rparr>)])],
           Stats := (Stats example_state)
             \<lparr>metricAggregatorStats.NumStats := 18,
              metricAggregatorStats.ProcessingTime := 10\<rparr>\<rparr>,
        \<lparr>MetricMap.NumStats = 18, ProcessingTime = 10, FlushInterval = 1000000000,
         Counters =
           [(''hits'', [([], (NewCounter 1000000000 1000000000 3)\<lparr>Counter.PerSecond := 3\<rparr>)])],
         Timers =
           [(''latency'',
             [([], \<lparr>Count = 3, PerSecond = 3, Mean = 3, Median = 3, Max = 5, Min = 1,
                    StdDev = sqrt (8 / 3), Sum = 9, SumSquares = 35, Values = [1, 3, 5],
                    Percentiles =
                      [(''count_90'', 3), (''mean_90'', 3), (''sum_90'', 9),
                       (''sum_squares_90'', 35), (''upper_90'', 5)],
                    Timestamp = 1000000000, Interval = 1000000000\<rparr>)])],
         Gauges = Gauges example_state, Sets = Sets example_state\<rparr>)"
  by (simp add: flush_eval timer_eval example_state_def NewMetricAggregator_def NewCounter_def
      NewTimer_def NewGauge_def NewSet_def Counter_lit_def Timer_lit_def Set_lit_def)

text \<open>
  Claim C10. A flush that returns leaves the set of series of each of the four maps as it
  was, and it returns whenever the thresholds lie between 0 and 100. A series that
  \<^verbatim>\<open>Reset\<close> removes has expired, and a fold removes none.
\<close>

theorem flush_keeps_series:
  assumes "wf_state a"
  shows "((\<forall>p \<in> set (PercentThresholds a). 0 \<le> p \<and> p \<le> 100) \<longrightarrow>
            (\<exists>a' snap. flush a startTime endTime = Inr (a', snap))) \<and>
         (\<forall>a' snap. flush a startTime endTime = Inr (a', snap) \<longrightarrow>
            series (Counters a') = series (Counters a) \<and>
            series (Timers a') = series (Timers a) \<and>
            series (Gauges a') = series (Gauges a) \<and>
            series (Sets a') = series (Sets a)) \<and>
         (\<exists>a'. Reset a now = Inr a' \<and>
            (\<forall>k tk c. lookup2 (Counters a) k tk = Some c \<and> (k, tk) \<notin> series (Counters a') \<longrightarrow>
               isExpired a now (Counter.Timestamp c)) \<and>
            (\<forall>k tk t. lookup2 (Timers a) k tk = Some t \<and> (k, tk) \<notin> series (Timers a') \<longrightarrow>
               isExpired a now (Timer.Timestamp t)) \<and>
            (\<forall>k tk g. lookup2 (Gauges a) k tk = Some g \<and> (k, tk) \<notin> series (Gauges a') \<longrightarrow>
               isExpired a now (Gauge.Timestamp g)) \<and>
            (\<forall>k tk s. lookup2 (Sets a) k tk = Some s \<and> (k, tk) \<notin> series (Sets a') \<longrightarrow>
               isExpired a now (Set.Timestamp s))) \<and>
         series (Counters a) \<subseteq> series (Counters (receiveMetric TS a m t w)) \<and>
         series (Timers a) \<subseteq> series (Timers (receiveMetric TS a m t w)) \<and>
         series (Gauges a) \<subseteq> series (Gauges (receiveMetric TS a m t w)) \<and>
         series (Sets a) \<subseteq> series (Sets (receiveMetric TS a m t w))"
proof (intro conjI impI allI)
  assume "\<forall>p \<in> set (PercentThresholds a). 0 \<le> p \<and> p \<le> 100"
  then show "\<exists>a' snap. flush a startTime endTime = Inr (a', snap)"
    by (intro flush_total[OF assms] timers_safe_upper)
next
  fix a' snap assume r: "flush a startTime endTime = Inr (a', snap)"
  show "series (Counters a') = series (Counters a)" "series (Timers a') = series (Timers a)"
    "series (Gauges a') = series (Gauges a)" "series (Sets a') = series (Sets a)"
    by (rule flush_series[OF assms r])+
next
  show "\<exists>a'. Reset a now = Inr a' \<and>
            (\<forall>k tk c. lookup2 (Counters a) k tk = Some c \<and> (k, tk) \<notin> series (Counters a') \<longrightarrow>
               isExpired a now (Counter.Timestamp c)) \<and>
            (\<forall>k tk t. lookup2 (Timers a) k tk = Some t \<and> (k, tk) \<notin> series (Timers a') \<longrightarrow>
               isExpired a now (Timer.Timestamp t)) \<and>
            (\<forall>k tk g. lookup2 (Gauges a) k tk = Some g \<and> (k, tk) \<notin> series (Gauges a') \<longrightarrow>
               isExpired a now (Gauge.Timestamp g)) \<and>
            (\<forall>k tk s. lookup2 (Sets a) k tk = Some s \<and> (k, tk) \<notin> series (Sets a') \<longrightarrow>
               isExpired a now (Set.Timestamp s))"
    by (rule Reset_removes_expired[OF assms])
next
  have wf: "wf_state (receiveMetric TS a m t w)" by (rule receiveMetric_wf[OF assms])
  have w0: "wf_nested (Counters a)" "wf_nested (Timers a)" "wf_nested (Gauges a)"
    "wf_nested (Sets a)" using assms by (simp_all add: wf_state_def)
  have w1: "wf_nested (Counters (receiveMetric TS a m t w))"
    "wf_nested (Timers (receiveMetric TS a m t w))"
    "wf_nested (Gauges (receiveMetric TS a m t w))"
    "wf_nested (Sets (receiveMetric TS a m t w))" using wf by (simp_all add: wf_state_def)
  show "series (Counters a) \<subseteq> series (Counters (receiveMetric TS a m t w))"
    using receiveMetric_keeps(1)[of a _ _ TS m t w] by (auto simp: series_iff w0 w1)
  show "series (Timers a) \<subseteq> series (Timers (receiveMetric TS a m t w))"
    using receiveMetric_keeps(2)[of a _ _ TS m t w] by (auto simp: series_iff w0 w1)
  show "series (Gauges a) \<subseteq> series (Gauges (receiveMetric TS a m t w))"
    using receiveMetric_keeps(3)[of a _ _ TS m t w] by (auto simp: series_iff w0 w1)
  show "series (Sets a) \<subseteq> series (Sets (receiveMetric TS a m t w))"
    using receiveMetric_keeps(4)[of a _ _ TS m t w] by (auto simp: series_iff w0 w1)
qed

theorem flush_keeps_series_witness:
  "wf_state example_state \<and>
   (\<exists>a' snap. flush example_state 10 20 = Inr (a', snap) \<and>
      series (Counters a') = {(''hits'', [])} \<and> series (Timers a') = {(''latency'', [])} \<and>
      series (Gauges a') = {(''load'', [])} \<and> series (Sets a') = {(''users'', [])})"
proof -
  note th = flush_keeps_series[OF wf_state_example, of 10 20 0 concat
      "example_metric ''hits'' COUNTER 1" 0 0]
  have p: "\<forall>p \<in> set (PercentThresholds example_state). 0 \<le> p \<and> p \<le> 100"
    by (simp add: example_state_def NewMetricAggregator_def)
  from th[THEN conjunct1] p obtain a' snap where
    r: "flush example_state 10 20 = Inr (a', snap)" by blast
  from th[THEN conjunct2, THEN conjunct1] r
  have s: "series (Counters a') = series (Counters example_state)"
    "series (Timers a') = series (Timers example_state)"
    "series (Gauges a') = series (Gauges example_state)"
    "series (Sets a') = series (Sets example_state)"
    by blast+
  have e: "series (Counters example_state) = {(''hits'', [])}"
    "series (Timers example_state) = {(''latency'', [])}"
    "series (Gauges example_state) = {(''load'', [])}"
    "series (Sets example_state) = {(''users'', [])}"
    by (simp_all add: series_def entries_def key_of_def example_state_def NewMetricAggregator_def)
  show ?thesis using r s e wf_state_example by auto
qed



end
